theory Spec2Isabelle
  imports Main
begin

section \<open>JavaScript values used by the ESLint marker hook\<close>

text \<open>
  Offsets are JavaScript numbers. Every offset the hook computes is an integer or, when
  a line number lies outside the line index, \<open>NaN\<close> (\<open>undefined + n\<close>).
  Comparisons with \<open>NaN\<close> are false and arithmetic on it yields \<open>NaN\<close>.
\<close>

datatype jsnum = NaN | Num int

fun js_lt :: "jsnum \<Rightarrow> jsnum \<Rightarrow> bool" where
  "js_lt (Num a) (Num b) = (a < b)"
| "js_lt _ _ = False"

fun js_le :: "jsnum \<Rightarrow> jsnum \<Rightarrow> bool" where
  "js_le (Num a) (Num b) = (a \<le> b)"
| "js_le _ _ = False"

fun js_eq :: "jsnum \<Rightarrow> jsnum \<Rightarrow> bool" where
  "js_eq (Num a) (Num b) = (a = b)"
| "js_eq _ _ = False"

fun js_add :: "jsnum \<Rightarrow> jsnum \<Rightarrow> jsnum" where
  "js_add (Num a) (Num b) = Num (a + b)"
| "js_add _ _ = NaN"

fun js_sub :: "jsnum \<Rightarrow> jsnum \<Rightarrow> jsnum" where
  "js_sub (Num a) (Num b) = Num (a - b)"
| "js_sub _ _ = NaN"

text \<open>
  \<open>String.prototype.slice\<close>: an index is first turned into an integer (\<open>NaN\<close>
  becomes 0), a negative index counts from the end, and both ends are clamped to the
  string. A string is a list of code units; \<open>length\<close> counts them as
  \<open>.length\<close> does.
\<close>

fun slice_index :: "nat \<Rightarrow> jsnum \<Rightarrow> nat" where
  "slice_index n NaN = 0"
| "slice_index n (Num i) = (if i < 0 then nat (int n + i) else min (nat i) n)"

definition slice :: "string \<Rightarrow> jsnum \<Rightarrow> jsnum \<Rightarrow> string" where
  "slice s a b =
     (let lo = slice_index (length s) a; hi = slice_index (length s) b
      in take (hi - lo) (drop lo s))"

definition slice_from :: "string \<Rightarrow> jsnum \<Rightarrow> string" where
  "slice_from s a = drop (slice_index (length s) a) s"

section \<open>Prism token streams\<close>

text \<open>
  A token of a Prism token stream is a plain string or a \<open>Prism.Token\<close> object
  with the fields \<open>type\<close>, \<open>content\<close>, \<open>alias\<close> and \<open>length\<close>.
  The content is a string, a single token or an array of tokens; the alias is
  undefined, a string or an array of strings.
\<close>

datatype token_alias = AliasUndefined | AliasStr string | AliasArr "string list"

datatype 'a tcontent = CStr string | CTok 'a | CArr "'a list"

datatype token =
    Str string
  | Token (ttype: string) (tcontent: "token tcontent") (talias: token_alias) (tlength: nat)

text \<open>
  The constructor \<open>new Prism.Token(type, content, alias, matchedStr)\<close> of the Prism
  library stores \<open>(matchedStr || '').length | 0\<close> in the field \<open>length\<close>.
  The hook always calls it with three arguments, so every token it builds has
  \<open>length\<close> 0, whatever its content.
\<close>

definition Prism_Token :: "string \<Rightarrow> token tcontent \<Rightarrow> token_alias \<Rightarrow> token" where
  "Prism_Token ty c al = Token ty c al 0"

text \<open>The property \<open>token.length\<close>: of a string its length, of an object the field.\<close>

fun js_length :: "token \<Rightarrow> nat" where
  "js_length (Str s) = length s"
| "js_length (Token ty c al n) = n"

text \<open>
  Truthiness of a value that is a token or \<open>null\<close>/\<open>undefined\<close>: an object
  is truthy, a string is truthy unless it is empty.
\<close>

fun truthy :: "token option \<Rightarrow> bool" where
  "truthy None = False"
| "truthy (Some (Str s)) = (s \<noteq> [])"
| "truthy (Some (Token ty c al n)) = True"

text \<open>\<open>[x].flat()\<close>: an array is spread one level, anything else is kept as the one element.\<close>

fun flat :: "token tcontent \<Rightarrow> token list" where
  "flat (CStr s) = [Str s]"
| "flat (CTok t) = [t]"
| "flat (CArr ts) = ts"

section \<open>The token-tree splitter\<close>

text \<open>
  \<open>getTokenContent\<close> (source lines 117-128): the text of a token; a token of type
  \<open>eslint-message\<close> counts as empty.
\<close>

fun getTokenContent :: "token \<Rightarrow> string" where
  "getTokenContent (Str s) = s"
| "getTokenContent (Token ty (CStr s) al n) = (if ty = ''eslint-message'' then [] else s)"
| "getTokenContent (Token ty (CTok t) al n) =
     (if ty = ''eslint-message'' then [] else concat (map getTokenContent [t]))"
| "getTokenContent (Token ty (CArr ts) al n) =
     (if ty = ''eslint-message'' then [] else concat (map getTokenContent ts))"

record split_result =
  before :: "token option"
  marked :: token
  after :: "token option"

text \<open>
  The part of \<open>splitToken\<close> after \<open>buildToken\<close> is chosen (source lines
  154-171): the text of the token is cut at the range, the piece inside the range is
  wrapped in an \<open>eslint-marked\<close> token together with a fresh
  \<open>eslint-message\<close> token, and the pieces outside are rebuilt with
  \<open>buildToken\<close>. The test for an \<open>after\<close> piece reads \<open>token.length\<close>.
\<close>

definition splitText ::
  "(string \<Rightarrow> token) \<Rightarrow> token \<Rightarrow> jsnum \<times> jsnum \<Rightarrow> string \<Rightarrow> int \<Rightarrow> split_result" where
  "splitText buildToken token rng message tokenStart =
     (let content = getTokenContent token;
          before = (if js_lt (Num tokenStart) (fst rng)
                    then Some (buildToken (slice content (Num 0) (js_sub (fst rng) (Num tokenStart))))
                    else None);
          mark = slice content
                   (if truthy before then js_sub (fst rng) (Num tokenStart) else Num 0)
                   (js_sub (snd rng) (Num tokenStart));
          marked = Prism_Token ''eslint-marked''
                     (CArr [buildToken mark,
                            Prism_Token ''eslint-message'' (CStr message) (AliasArr [''alert''])])
                     (if mark = [CHR 0x0A] \<and> js_eq (js_add (fst rng) (Num 1)) (snd rng)
                      then AliasArr [''eslint-marked-line-feed'']
                      else AliasArr []);
          after = (if js_lt (js_sub (snd rng) (Num tokenStart)) (Num (int (js_length token)))
                   then Some (buildToken (slice_from content (js_sub (snd rng) (Num tokenStart))))
                   else None)
      in \<lparr>before = before, marked = marked, after = after\<rparr>)"

text \<open>
  \<open>result.marked.content.pop()\<close> and \<open>result.marked.content.push(...xs)\<close>
  (source lines 213 and 215). The \<open>marked\<close> token of a split result always holds
  an array (lemma \<open>splitToken_marked_array\<close> below); \<open>pop\<close> on an empty
  array removes nothing.
\<close>

fun content_pop :: "token \<Rightarrow> token" where
  "content_pop (Token ty (CArr ts) al n) = Token ty (CArr (butlast ts)) al n"
| "content_pop t = t"

fun content_push :: "token \<Rightarrow> token list \<Rightarrow> token" where
  "content_push (Token ty (CArr ts) al n) xs = Token ty (CArr (ts @ xs)) al n"
| "content_push t xs = t"

fun content_array :: "token \<Rightarrow> token list" where
  "content_array (Token ty (CArr ts) al n) = ts"
| "content_array t = []"

text \<open>
  \<open>splitToken\<close> assigns to \<open>token.content\<close> when the content is not a string
  and returns that same object as \<open>marked\<close>; any other token is left as it was.
  \<open>token_after_split token r\<close> is the token as a later read (source line 219) sees it.
\<close>

fun token_after_split :: "token \<Rightarrow> split_result \<Rightarrow> token" where
  "token_after_split (Str s) r = Str s"
| "token_after_split (Token ty (CStr s) al n) r = Token ty (CStr s) al n"
| "token_after_split (Token ty c al n) r = marked r"

text \<open>\<open>if (x) { yield x; }\<close>\<close>

fun yield_if :: "token option \<Rightarrow> token list" where
  "yield_if None = []"
| "yield_if (Some t) = (if truthy (Some t) then [t] else [])"

text \<open>
  \<open>splitToken\<close> (source lines 139-172), the generator \<open>convertMarked\<close> (lines
  183-230) with the tokens it yields collected in a list, and its inner loop (lines
  208-220) as \<open>convertMarked_merge\<close>, which returns the updated \<open>result\<close> and
  what is left of the buffer. The outer loop \<open>while ((token = buffer.shift()))\<close>
  stops at the end of the buffer and also at a token that is falsy, that is at an
  empty string.
\<close>

function (sequential)
  splitToken :: "token \<Rightarrow> jsnum \<times> jsnum \<Rightarrow> string \<Rightarrow> int \<Rightarrow> split_result"
  and convertMarked :: "token list \<Rightarrow> jsnum \<times> jsnum \<Rightarrow> string \<Rightarrow> int \<Rightarrow> token list"
  and convertMarked_merge ::
    "token list \<Rightarrow> jsnum \<times> jsnum \<Rightarrow> string \<Rightarrow> int \<Rightarrow> split_result \<Rightarrow> split_result \<times> token list"
where
  "splitToken (Str s) rng message tokenStart =
     splitText Str (Str s) rng message tokenStart"
| "splitToken (Token ty (CStr s) al n) rng message tokenStart =
     splitText (\<lambda>newContent. Prism_Token ty (CStr newContent) al)
       (Token ty (CStr s) al n) rng message tokenStart"
| "splitToken (Token ty c al n) rng message tokenStart =
     \<lparr>before = None,
      marked = Token ty (CArr (convertMarked (flat c) rng message tokenStart)) al n,
      after = None\<rparr>"
| "convertMarked [] rng message start = []"
| "convertMarked (token # buffer) rng message start =
     (if token = Str [] then []
      else
        let content = getTokenContent token;
            endIndex = start + int (length content)
        in if content = [] \<or> js_le (Num endIndex) (fst rng)
           then token # convertMarked buffer rng message endIndex
           else
             let result = splitToken token rng message start;
                 (merged, remaining) = convertMarked_merge buffer rng message endIndex result
             in yield_if (before result) @ [marked merged] @ yield_if (after merged) @ remaining)"
| "convertMarked_merge [] rng message nextTokenStartIndex result = (result, [])"
| "convertMarked_merge (nextToken # buffer) rng message nextTokenStartIndex result =
     (if js_lt (Num nextTokenStartIndex) (snd rng)
      then
        let next = splitToken nextToken rng message nextTokenStartIndex;
            result' = result\<lparr>
              marked := content_push (content_pop (marked result)) (content_array (marked next)),
              after := (if truthy (after next) then after next else after result)\<rparr>
        in convertMarked_merge buffer rng message
             (nextTokenStartIndex + int (length (getTokenContent (token_after_split nextToken next))))
             result'
      else (result, nextToken # buffer))"
  by pat_completeness auto
termination
  by (relation "measure (\<lambda>x. case x of
        Inl (t, _) \<Rightarrow> size t
      | Inr (Inl (ts, _)) \<Rightarrow> size_list size ts
      | Inr (Inr (ts, _)) \<Rightarrow> size_list size ts)") auto

section \<open>The after-tokenize hook\<close>

text \<open>
  The two module variables (source lines 14 and 20). \<open>None\<close> is \<open>undefined\<close>.
\<close>

record 'p hook_state =
  contentMustBeMarked :: "string option"
  contentParserOptions :: "'p option"

definition addContentMustBeMarked :: "string \<Rightarrow> 'p option \<Rightarrow> 'p hook_state \<Rightarrow> 'p hook_state" where
  "addContentMustBeMarked content options st =
     st\<lparr>contentMustBeMarked := Some content, contentParserOptions := options\<rparr>"

text \<open>
  A message of the linter. A missing \<open>line\<close>, \<open>column\<close> or \<open>endColumn\<close>
  is only ever used in arithmetic, where \<open>undefined\<close> acts as \<open>NaN\<close>;
  \<open>endLine\<close> is tested for \<open>undefined\<close> and so is an option.
\<close>

record lint_message =
  m_message :: string
  m_line :: jsnum
  m_column :: jsnum
  m_endLine :: "jsnum option"
  m_endColumn :: jsnum
  m_fatal :: bool

text \<open>
  What the hook calls outside this file: the line-break matcher of
  \<open>astUtils.createGlobalLinebreakMatcher\<close> (given the rest of the text, the
  length of the line break it matches at its start, 0 for none),
  \<open>docsExampleCodeToParsableCode\<close>, and \<open>linter.verify\<close> as a function of
  the code and the parser options.
\<close>

record 'p collaborators =
  lineEndingPattern :: "string \<Rightarrow> nat"
  docsExampleCodeToParsableCode :: "string \<Rightarrow> string"
  verify :: "string \<Rightarrow> 'p \<Rightarrow> lint_message list"

text \<open>
  The loop of source lines 53-59 after the initial \<open>[0]\<close>: \<open>pos\<close> is the index of
  the first character of the text left, \<open>skip\<close> counts the characters of the current
  match still to be passed.
\<close>

fun lineStarts_scan :: "(string \<Rightarrow> nat) \<Rightarrow> nat \<Rightarrow> string \<Rightarrow> int \<Rightarrow> int list" where
  "lineStarts_scan pat skip [] pos = []"
| "lineStarts_scan pat skip (c # cs) pos =
     (if skip > 0 then lineStarts_scan pat (skip - 1) cs (pos + 1)
      else let n = pat (c # cs)
           in if n = 0 then lineStarts_scan pat 0 cs (pos + 1)
              else (pos + int n) # lineStarts_scan pat (n - 1) cs (pos + 1))"

definition lineStartIndices :: "(string \<Rightarrow> nat) \<Rightarrow> string \<Rightarrow> int list" where
  "lineStartIndices pat code = 0 # lineStarts_scan pat 0 code 0"

text \<open>
  \<open>getIndexFromLoc\<close> (source lines 69-74). Reading an array at an index that is
  not one of its indices gives \<open>undefined\<close>, and the sum is then \<open>NaN\<close>.
\<close>

definition getIndexFromLoc :: "int list \<Rightarrow> jsnum \<Rightarrow> jsnum \<Rightarrow> jsnum" where
  "getIndexFromLoc starts line column =
     (let lineStartIndex =
            (case js_sub line (Num 1) of
               NaN \<Rightarrow> NaN
             | Num i \<Rightarrow> if 0 \<le> i \<and> i < int (length starts) then Num (starts ! nat i) else NaN);
          positionIndex = js_sub (js_add lineStartIndex column) (Num 1)
      in positionIndex)"

text \<open>\<open>messageRanges\<close> (source lines 92-110): one entry for each message.\<close>

definition messageRange :: "int list \<Rightarrow> lint_message \<Rightarrow> (jsnum \<times> jsnum) \<times> string" where
  "messageRange starts m =
     (let start = getIndexFromLoc starts (m_line m) (m_column m)
      in ((start,
           (case m_endLine m of
              None \<Rightarrow> js_add start (Num 1)
            | Some l \<Rightarrow> getIndexFromLoc starts l (m_endColumn m))),
          m_message m))"

definition messageRanges :: "int list \<Rightarrow> lint_message list \<Rightarrow> ((jsnum \<times> jsnum) \<times> string) list" where
  "messageRanges starts messages = map (messageRange starts) messages"

text \<open>
  The loop of source lines 232-234: each range is applied to the token stream the
  previous one left, with \<open>tokenStart\<close> at its default 0.
\<close>

fun applyRanges :: "token list \<Rightarrow> ((jsnum \<times> jsnum) \<times> string) list \<Rightarrow> token list" where
  "applyRanges tokens [] = tokens"
| "applyRanges tokens ((rng, message) # rest) =
     applyRanges (convertMarked tokens rng message 0) rest"

record env =
  code :: string
  tokens :: "token list"

text \<open>
  A call of the hook returns, or it throws the \<open>TypeError\<close> of reading
  \<open>parserOptions.sourceType\<close> when no parser options were registered.
\<close>

datatype 'a outcome = Returned 'a | TypeError

text \<open>
  The hook (source lines 40-235), from the module state and \<open>env\<close> to the new module
  state and the \<open>env\<close> it leaves. Beside the \<open>env\<close> the model returns the list
  of the ranges that were handed to \<open>convertMarked\<close>, in the order of the calls.
\<close>

definition hook ::
  "'p collaborators \<Rightarrow> 'p hook_state \<Rightarrow> env \<Rightarrow>
   'p hook_state \<times> (env \<times> ((jsnum \<times> jsnum) \<times> string) list) outcome" where
  "hook c st e =
     (if contentMustBeMarked st \<noteq> Some (code e) then (st, Returned (e, []))
      else
        let st' = st\<lparr>contentMustBeMarked := None\<rparr>;
            starts = lineStartIndices (lineEndingPattern c) (code e)
        in case contentParserOptions st of
             None \<Rightarrow> (st', TypeError)
           | Some parserOptions \<Rightarrow>
               let messages = verify c (docsExampleCodeToParsableCode c (code e)) parserOptions
               in if list_ex m_fatal messages then (st', Returned (e, []))
                  else
                    let ranges = messageRanges starts messages
                    in (st', Returned (e\<lparr>tokens := applyRanges (tokens e) ranges\<rparr>, ranges)))"

section \<open>Reading a token tree\<close>

text \<open>
  The text of a token stream: the texts of its tokens joined, as
  \<open>getTokenContent\<close> itself joins the texts of an array.
\<close>

definition treeText :: "token list \<Rightarrow> string" where
  "treeText ts = concat (map getTokenContent ts)"

text \<open>How many tokens of the type \<open>k\<close> a token holds, itself included.\<close>

fun count_type :: "string \<Rightarrow> token \<Rightarrow> nat" where
  "count_type k (Str s) = 0"
| "count_type k (Token ty (CStr s) al n) = (if ty = k then 1 else 0)"
| "count_type k (Token ty (CTok t) al n) = (if ty = k then 1 else 0) + count_type k t"
| "count_type k (Token ty (CArr ts) al n) =
     (if ty = k then 1 else 0) + sum_list (map (count_type k) ts)"

definition wrapperNodes :: "token list \<Rightarrow> nat" where
  "wrapperNodes ts = sum_list (map (count_type ''eslint-marked'') ts)"

definition messageNodes :: "token list \<Rightarrow> nat" where
  "messageNodes ts = sum_list (map (count_type ''eslint-message'') ts)"

text \<open>
  The aliases of the wrappers of a token, in document order. A wrapper is a token of
  the type \<open>eslint-marked\<close> whose content is not a string, as \<open>splitToken\<close>
  builds it.
\<close>

fun wrapper_aliases :: "token \<Rightarrow> token_alias list" where
  "wrapper_aliases (Str s) = []"
| "wrapper_aliases (Token ty (CStr s) al n) = []"
| "wrapper_aliases (Token ty (CTok t) al n) =
     (if ty = ''eslint-marked'' then [al] else []) @ wrapper_aliases t"
| "wrapper_aliases (Token ty (CArr ts) al n) =
     (if ty = ''eslint-marked'' then [al] else []) @ concat (map wrapper_aliases ts)"

text \<open>No empty string stands anywhere in the token stream of the token.\<close>

fun no_empty_leaf :: "token \<Rightarrow> bool" where
  "no_empty_leaf (Str s) = (s \<noteq> [])"
| "no_empty_leaf (Token ty (CStr s) al n) = True"
| "no_empty_leaf (Token ty (CTok t) al n) = no_empty_leaf t"
| "no_empty_leaf (Token ty (CArr ts) al n) = list_all no_empty_leaf ts"

text \<open>The alias \<open>splitToken\<close> gives a wrapper of a range of length one around \<open>c\<close>.\<close>

definition line_feed_alias :: "char \<Rightarrow> token_alias" where
  "line_feed_alias c =
     (if c = CHR 0x0A then AliasArr [''eslint-marked-line-feed''] else AliasArr [])"

text \<open>
  \<open>tag_step ts out c\<close>: the wrappers of \<open>out\<close> are those of \<open>ts\<close>, with
  their aliases and in their order, and one more wrapper with the alias that a range of
  length one around \<open>c\<close> gets.
\<close>

definition tag_step :: "token list \<Rightarrow> token list \<Rightarrow> char \<Rightarrow> bool" where
  "tag_step ts out c \<longleftrightarrow>
     (\<exists>xs ys. concat (map wrapper_aliases ts) = xs @ ys \<and>
        concat (map wrapper_aliases out) = xs @ [line_feed_alias c] @ ys)"

section \<open>The splitter on a store of token objects\<close>

text \<open>
  The functions above compute the token stream that \<open>convertMarked\<close> yields. The
  source also writes to objects it was given: \<open>splitToken\<close> assigns to
  \<open>token.content\<close> (line 148), and the inner loop pops from and pushes to
  \<open>result.marked.content\<close> (lines 213 and 215), which may be that same token. To
  speak about these writes, this section repeats the three functions over a store:
  a \<open>Prism.Token\<close> object lives at an address, a value of a token stream is a string
  or the address of an object, and every function takes the store and returns the new
  one. Every array written to (by \<open>shift\<close>, \<open>pop\<close> or \<open>push\<close>) is one the
  call has made itself, by an array literal, by \<open>[tokens].flat()\<close> or by a spread,
  and is held by one object at most; so an array is kept as the list of its elements in
  the object that holds it.

  A store may hold a token that contains itself, on which the source would not return.
  The functions take a bound on the depth of nesting they follow and return \<open>None\<close>
  when it is used up, when an address points outside the store, or when \<open>pop\<close> or
  \<open>push\<close> meets a content that is not an array.
\<close>

datatype jsval = VStr string | VObj nat

datatype obj_content = OStr string | OTok nat | OArr "jsval list"

record token_obj =
  o_type :: string
  o_content :: obj_content
  o_alias :: token_alias
  o_length :: nat

type_synonym store = "token_obj list"

text \<open>\<open>new Prism.Token(type, content, alias)\<close>: a new object, with \<open>length\<close> 0.\<close>

definition new_Token :: "store \<Rightarrow> string \<Rightarrow> obj_content \<Rightarrow> token_alias \<Rightarrow> store \<times> jsval" where
  "new_Token h ty c al =
     (h @ [\<lparr>o_type = ty, o_content = c, o_alias = al, o_length = 0\<rparr>], VObj (length h))"

fun truthyS :: "jsval option \<Rightarrow> bool" where
  "truthyS None = False"
| "truthyS (Some (VStr s)) = (s \<noteq> [])"
| "truthyS (Some (VObj a)) = True"

fun flatS :: "obj_content \<Rightarrow> jsval list" where
  "flatS (OStr s) = [VStr s]"
| "flatS (OTok a) = [VObj a]"
| "flatS (OArr vs) = vs"

fun getTokenContentS :: "nat \<Rightarrow> store \<Rightarrow> jsval \<Rightarrow> string option" where
  "getTokenContentS depth h (VStr s) = Some s"
| "getTokenContentS depth h (VObj a) =
     (if a < length h then
        (if o_type (h ! a) = ''eslint-message'' then Some []
         else case o_content (h ! a) of
                OStr s \<Rightarrow> Some s
              | c \<Rightarrow> (case depth of
                         0 \<Rightarrow> None
                       | Suc d \<Rightarrow> map_option concat (those (map (getTokenContentS d h) (flatS c)))))
      else None)"

record split_resultS =
  s_before :: "jsval option"
  s_marked :: nat
  s_after :: "jsval option"

text \<open>
  Source lines 154-171 on the store. \<open>buildToken\<close> may make a new object;
  \<open>token_length\<close> is \<open>token.length\<close> and \<open>content\<close> is
  \<open>getTokenContent(token)\<close>. The objects are made in the order of the source.
\<close>

definition splitTextS ::
  "(store \<Rightarrow> string \<Rightarrow> store \<times> jsval) \<Rightarrow> nat \<Rightarrow> string \<Rightarrow> jsnum \<times> jsnum \<Rightarrow> string \<Rightarrow> int \<Rightarrow>
   store \<Rightarrow> store \<times> split_resultS" where
  "splitTextS buildToken token_length content rng message tokenStart h =
     (let (h1, before) =
            (if js_lt (Num tokenStart) (fst rng)
             then let (h', v) = buildToken h (slice content (Num 0) (js_sub (fst rng) (Num tokenStart)))
                  in (h', Some v)
             else (h, None));
          mark = slice content
                   (if truthyS before then js_sub (fst rng) (Num tokenStart) else Num 0)
                   (js_sub (snd rng) (Num tokenStart));
          (h2, piece) = buildToken h1 mark;
          (h3, msg) = new_Token h2 ''eslint-message'' (OStr message) (AliasArr [''alert'']);
          h4 = h3 @ [\<lparr>o_type = ''eslint-marked'', o_content = OArr [piece, msg],
                       o_alias = (if mark = [CHR 0x0A] \<and> js_eq (js_add (fst rng) (Num 1)) (snd rng)
                                  then AliasArr [''eslint-marked-line-feed'']
                                  else AliasArr []),
                       o_length = 0\<rparr>];
          (h5, after) =
            (if js_lt (js_sub (snd rng) (Num tokenStart)) (Num (int token_length))
             then let (h', v) = buildToken h4 (slice_from content (js_sub (snd rng) (Num tokenStart)))
                  in (h', Some v)
             else (h4, None))
      in (h5, \<lparr>s_before = before, s_marked = length h3, s_after = after\<rparr>))"

text \<open>\<open>obj.content.pop()\<close> and \<open>obj.content.push(...xs)\<close> for the object at \<open>a\<close>.\<close>

definition popS :: "store \<Rightarrow> nat \<Rightarrow> store option" where
  "popS h a =
     (if a < length h then
        (case o_content (h ! a) of
           OArr vs \<Rightarrow> Some (h[a := (h ! a)\<lparr>o_content := OArr (butlast vs)\<rparr>])
         | _ \<Rightarrow> None)
      else None)"

definition pushS :: "store \<Rightarrow> nat \<Rightarrow> jsval list \<Rightarrow> store option" where
  "pushS h a xs =
     (if a < length h then
        (case o_content (h ! a) of
           OArr vs \<Rightarrow> Some (h[a := (h ! a)\<lparr>o_content := OArr (vs @ xs)\<rparr>])
         | _ \<Rightarrow> None)
      else None)"

text \<open>Reading \<open>obj.content\<close> for the spread of source line 215.\<close>

definition content_arrayS :: "store \<Rightarrow> nat \<Rightarrow> jsval list option" where
  "content_arrayS h a =
     (if a < length h then
        (case o_content (h ! a) of OArr vs \<Rightarrow> Some vs | _ \<Rightarrow> None)
      else None)"

fun yield_ifS :: "jsval option \<Rightarrow> jsval list" where
  "yield_ifS None = []"
| "yield_ifS (Some v) = (if truthyS (Some v) then [v] else [])"

text \<open>
  \<open>splitToken\<close>, \<open>convertMarked\<close> and its inner loop on the store. The depth bound
  goes down where \<open>splitToken\<close> enters the content of a token.
\<close>

function (sequential)
  splitTokenS ::
    "nat \<Rightarrow> store \<Rightarrow> jsval \<Rightarrow> jsnum \<times> jsnum \<Rightarrow> string \<Rightarrow> int \<Rightarrow> (store \<times> split_resultS) option"
  and convertMarkedS ::
    "nat \<Rightarrow> store \<Rightarrow> jsval list \<Rightarrow> jsnum \<times> jsnum \<Rightarrow> string \<Rightarrow> int \<Rightarrow> (store \<times> jsval list) option"
  and convertMarked_mergeS ::
    "nat \<Rightarrow> store \<Rightarrow> jsval list \<Rightarrow> jsnum \<times> jsnum \<Rightarrow> string \<Rightarrow> int \<Rightarrow> split_resultS \<Rightarrow>
     (store \<times> split_resultS \<times> jsval list) option"
where
  "splitTokenS depth h (VStr s) rng message tokenStart =
     Some (splitTextS (\<lambda>h' newContent. (h', VStr newContent)) (length s) s rng message tokenStart h)"
| "splitTokenS depth h (VObj a) rng message tokenStart =
     (if a < length h then
        (case o_content (h ! a) of
           OStr s \<Rightarrow>
             Some (splitTextS
                     (\<lambda>h' newContent. new_Token h' (o_type (h ! a)) (OStr newContent) (o_alias (h ! a)))
                     (o_length (h ! a))
                     (if o_type (h ! a) = ''eslint-message'' then [] else s)
                     rng message tokenStart h)
         | c \<Rightarrow>
             (case depth of
                0 \<Rightarrow> None
              | Suc d \<Rightarrow>
                  (case convertMarkedS d h (flatS c) rng message tokenStart of
                     None \<Rightarrow> None
                   | Some (h', out) \<Rightarrow>
                       Some (h'[a := (h' ! a)\<lparr>o_content := OArr out\<rparr>],
                             \<lparr>s_before = None, s_marked = a, s_after = None\<rparr>))))
      else None)"
| "convertMarkedS depth h [] rng message start = Some (h, [])"
| "convertMarkedS depth h (token # buffer) rng message start =
     (if token = VStr [] then Some (h, [])
      else
        (case getTokenContentS depth h token of
           None \<Rightarrow> None
         | Some content \<Rightarrow>
             let endIndex = start + int (length content)
             in if content = [] \<or> js_le (Num endIndex) (fst rng)
                then (case convertMarkedS depth h buffer rng message endIndex of
                        None \<Rightarrow> None
                      | Some (h', out) \<Rightarrow> Some (h', token # out))
                else
                  (case splitTokenS depth h token rng message start of
                     None \<Rightarrow> None
                   | Some (h1, result) \<Rightarrow>
                       (case convertMarked_mergeS depth h1 buffer rng message endIndex result of
                          None \<Rightarrow> None
                        | Some (h2, merged, remaining) \<Rightarrow>
                            Some (h2, yield_ifS (s_before result) @ [VObj (s_marked merged)] @
                                      yield_ifS (s_after merged) @ remaining)))))"
| "convertMarked_mergeS depth h [] rng message nextTokenStartIndex result = Some (h, result, [])"
| "convertMarked_mergeS depth h (nextToken # buffer) rng message nextTokenStartIndex result =
     (if js_lt (Num nextTokenStartIndex) (snd rng)
      then
        (case splitTokenS depth h nextToken rng message nextTokenStartIndex of
           None \<Rightarrow> None
         | Some (h1, next) \<Rightarrow>
             (case popS h1 (s_marked result) of
                None \<Rightarrow> None
              | Some h2 \<Rightarrow>
                  (case content_arrayS h2 (s_marked next) of
                     None \<Rightarrow> None
                   | Some xs \<Rightarrow>
                       (case pushS h2 (s_marked result) xs of
                          None \<Rightarrow> None
                        | Some h3 \<Rightarrow>
                            (case getTokenContentS depth h3 nextToken of
                               None \<Rightarrow> None
                             | Some content \<Rightarrow>
                                 convertMarked_mergeS depth h3 buffer rng message
                                   (nextTokenStartIndex + int (length content))
                                   (result\<lparr>s_after :=
                                      (if truthyS (s_after next) then s_after next
                                       else s_after result)\<rparr>))))))
      else Some (h, result, nextToken # buffer))"
  by pat_completeness auto
termination
  by (relation "inv_image (less_than <*lex*> less_than <*lex*> less_than)
        (\<lambda>x. case x of
           Inl (d, _) \<Rightarrow> (d, 0, 0)
         | Inr (Inl (d, _, ts, _)) \<Rightarrow> (d, 1, length ts)
         | Inr (Inr (d, _, ts, _)) \<Rightarrow> (d, 1, length ts))") auto

text \<open>
  \<open>frame h h'\<close>: what a call may have done to the objects of the store \<open>h\<close> it
  was given when it leaves the store \<open>h'\<close>. No object is removed; an object keeps its
  \<open>type\<close>, \<open>alias\<close> and \<open>length\<close>; and an object whose content is a string
  is left exactly as it was.
\<close>

definition frame :: "store \<Rightarrow> store \<Rightarrow> bool" where
  "frame h h' \<longleftrightarrow>
     length h \<le> length h' \<and>
     list_all (\<lambda>a. o_type (h' ! a) = o_type (h ! a) \<and>
                    o_alias (h' ! a) = o_alias (h ! a) \<and>
                    o_length (h' ! a) = o_length (h ! a) \<and>
                    (case o_content (h ! a) of OStr s \<Rightarrow> h' ! a = h ! a | _ \<Rightarrow> True))
       [0..<length h]"

text \<open>
  The token that a value of the store stands for, to compare the two models; the
  bound is on the depth of nesting, as above.
\<close>

fun to_token :: "nat \<Rightarrow> store \<Rightarrow> jsval \<Rightarrow> token option" where
  "to_token depth h (VStr s) = Some (Str s)"
| "to_token depth h (VObj a) =
     (if a < length h then
        (case o_content (h ! a) of
           OStr s \<Rightarrow> Some (Token (o_type (h ! a)) (CStr s) (o_alias (h ! a)) (o_length (h ! a)))
         | OTok b \<Rightarrow>
             (case depth of
                0 \<Rightarrow> None
              | Suc d \<Rightarrow>
                  map_option (\<lambda>t. Token (o_type (h ! a)) (CTok t) (o_alias (h ! a)) (o_length (h ! a)))
                    (to_token d h (VObj b)))
         | OArr vs \<Rightarrow>
             (case depth of
                0 \<Rightarrow> None
              | Suc d \<Rightarrow>
                  map_option (\<lambda>ts. Token (o_type (h ! a)) (CArr ts) (o_alias (h ! a)) (o_length (h ! a)))
                    (those (map (to_token d h) vs))))
      else None)"

definition to_tokens :: "nat \<Rightarrow> (store \<times> jsval list) option \<Rightarrow> token list option" where
  "to_tokens depth r =
     (case r of None \<Rightarrow> None | Some (h, vs) \<Rightarrow> those (map (to_token depth h) vs))"

text \<open>The loop of source lines 232-234 on the store.\<close>

fun applyRangesS ::
  "nat \<Rightarrow> store \<Rightarrow> jsval list \<Rightarrow> ((jsnum \<times> jsnum) \<times> string) list \<Rightarrow>
   (store \<times> jsval list) option" where
  "applyRangesS depth h vs [] = Some (h, vs)"
| "applyRangesS depth h vs ((rng, message) # rest) =
     (case convertMarkedS depth h vs rng message 0 of
        None \<Rightarrow> None
      | Some (h', vs') \<Rightarrow> applyRangesS depth h' vs' rest)"

text \<open>A store with a keyword token and two tokens with nested content.\<close>

definition example_store :: store where
  "example_store =
     [\<lparr>o_type = ''keyword'', o_content = OStr ''const'', o_alias = AliasUndefined, o_length = 5\<rparr>,
      \<lparr>o_type = ''template-string'', o_content = OArr [VStr ''ab'', VStr ''cd''],
        o_alias = AliasUndefined, o_length = 4\<rparr>,
      \<lparr>o_type = ''template-string'', o_content = OArr [VStr ''cd'', VStr ''ef''],
        o_alias = AliasUndefined, o_length = 4\<rparr>]"

text \<open>
  A token as the tokenizer gives it when it does not nest: a non-empty string, or an
  object whose content is a string and whose \<open>length\<close> is the length of that string.
\<close>

fun plain :: "token \<Rightarrow> bool" where
  "plain (Str s) = (s \<noteq> [])"
| "plain (Token ty (CStr s) al n) = (ty \<noteq> ''eslint-message'' \<and> n = length s)"
| "plain (Token ty c al n) = False"

text \<open>The wrapper that \<open>splitToken\<close> builds, around the tokens \<open>inner\<close>.\<close>

definition wrapper :: "token list \<Rightarrow> string \<Rightarrow> token_alias \<Rightarrow> token" where
  "wrapper inner message al =
     Token ''eslint-marked''
       (CArr (inner @ [Token ''eslint-message'' (CStr message) (AliasArr [''alert'']) 0])) al 0"

text \<open>
  The tokens that a range meets are the entry token, at which the outer loop of
  \<open>convertMarked\<close> stops passing tokens through, and the tokens that the inner loop
  takes from the buffer after it. \<open>range_clear ts rng start\<close>: none of them has
  nested content, that is, \<open>splitToken\<close> never takes the branch of source lines
  146-149. Tokens before the entry token and after the last token taken may nest.
\<close>

fun nested :: "token \<Rightarrow> bool" where
  "nested (Str s) = False"
| "nested (Token ty (CStr s) al n) = False"
| "nested (Token ty c al n) = True"

fun merge_clear :: "token list \<Rightarrow> jsnum \<times> jsnum \<Rightarrow> int \<Rightarrow> bool" where
  "merge_clear [] rng nextTokenStartIndex = True"
| "merge_clear (nextToken # buffer) rng nextTokenStartIndex =
     (if js_lt (Num nextTokenStartIndex) (snd rng)
      then \<not> nested nextToken \<and>
           merge_clear buffer rng (nextTokenStartIndex + int (length (getTokenContent nextToken)))
      else True)"

fun range_clear :: "token list \<Rightarrow> jsnum \<times> jsnum \<Rightarrow> int \<Rightarrow> bool" where
  "range_clear [] rng start = True"
| "range_clear (token # buffer) rng start =
     (if token = Str [] then True
      else
        let content = getTokenContent token;
            endIndex = start + int (length content)
        in if content = [] \<or> js_le (Num endIndex) (fst rng)
           then range_clear buffer rng endIndex
           else \<not> nested token \<and> merge_clear buffer rng endIndex)"

text \<open>
  \<open>piece h v t\<close>: the value \<open>v\<close> is the token \<open>t\<close> and does not nest: a string, or
  an object of the store \<open>h\<close> whose content is a string.
\<close>

definition piece :: "store \<Rightarrow> jsval \<Rightarrow> token \<Rightarrow> bool" where
  "piece h v t \<longleftrightarrow> to_token 0 h v = Some t"

fun opt_piece :: "store \<Rightarrow> jsval option \<Rightarrow> token option \<Rightarrow> bool" where
  "opt_piece h None None = True"
| "opt_piece h (Some v) (Some t) = piece h v t"
| "opt_piece h x y = False"

text \<open>
  \<open>result_rel h n r R\<close>: the split result \<open>r\<close> over the store \<open>h\<close> is the split
  result \<open>R\<close> over values, its pieces do not nest, and its wrapper is an object made
  after the store had \<open>n\<close> objects.
\<close>

definition result_rel :: "store \<Rightarrow> nat \<Rightarrow> split_resultS \<Rightarrow> split_result \<Rightarrow> bool" where
  "result_rel h n r R \<longleftrightarrow>
     opt_piece h (s_before r) (before R) \<and> opt_piece h (s_after r) (after R) \<and>
     n \<le> s_marked r \<and> s_marked r < length h \<and>
     (\<exists>vals toks al.
        h ! s_marked r = \<lparr>o_type = ''eslint-marked'', o_content = OArr vals, o_alias = al,
                            o_length = 0\<rparr> \<and>
        marked R = Token ''eslint-marked'' (CArr toks) al 0 \<and>
        list_all2 (piece h) vals toks)"

section \<open>Example inputs\<close>

text \<open>A matcher that knows the line feed only, and a linter that reports fixed messages.\<close>

definition lf_pattern :: "string \<Rightarrow> nat" where
  "lf_pattern s = (if take 1 s = [CHR 0x0A] then 1 else 0)"

definition example_message :: "string \<Rightarrow> int \<Rightarrow> int \<Rightarrow> bool \<Rightarrow> lint_message" where
  "example_message txt l col fat =
     \<lparr>m_message = txt, m_line = Num l, m_column = Num col, m_endLine = None,
      m_endColumn = NaN, m_fatal = fat\<rparr>"

definition example_collaborators :: "lint_message list \<Rightarrow> unit collaborators" where
  "example_collaborators msgs =
     \<lparr>lineEndingPattern = lf_pattern, docsExampleCodeToParsableCode = (\<lambda>s. s),
      verify = (\<lambda>s po. msgs)\<rparr>"

definition example_state :: "unit hook_state" where
  "example_state = \<lparr>contentMustBeMarked = Some ''abc'', contentParserOptions = Some ()\<rparr>"

definition example_env :: env where
  "example_env = \<lparr>code = ''abc'', tokens = [Str ''abc'']\<rparr>"

section \<open>The hook: which code is annotated, and with which messages\<close>

text \<open>
  Claim C8. When the linter reports at least one fatal message for a registered code
  example, the hook hands no range to the splitter and leaves the token stream as it
  was. When no message is fatal, the ranges handed to the splitter are the ranges of
  the reported messages, one for each message and in their order, and the token stream
  is the result of applying them one after the other.
\<close>

theorem hook_fatal_withheld:
  assumes "contentMustBeMarked st = Some (code e)"
    and "contentParserOptions st = Some po"
  shows
    "((\<exists>m \<in> set (verify c (docsExampleCodeToParsableCode c (code e)) po). m_fatal m) \<longrightarrow>
        snd (hook c st e) = Returned (e, [])) \<and>
     (\<not> (\<exists>m \<in> set (verify c (docsExampleCodeToParsableCode c (code e)) po). m_fatal m) \<longrightarrow>
        snd (hook c st e) =
          Returned
            (e\<lparr>tokens := applyRanges (tokens e)
                  (map (messageRange (lineStartIndices (lineEndingPattern c) (code e)))
                     (verify c (docsExampleCodeToParsableCode c (code e)) po))\<rparr>,
             map (messageRange (lineStartIndices (lineEndingPattern c) (code e)))
               (verify c (docsExampleCodeToParsableCode c (code e)) po)))"
  using assms by (simp add: hook_def Let_def list_ex_iff messageRanges_def)

theorem hook_fatal_withheld_witness:
  "contentMustBeMarked example_state = Some (code example_env) \<and>
   contentParserOptions example_state = Some () \<and>
   snd (hook (example_collaborators
          [example_message ''M'' 1 2 False, example_message ''F'' 1 1 True])
          example_state example_env) = Returned (example_env, []) \<and>
   snd (hook (example_collaborators [example_message ''M'' 1 2 False])
          example_state example_env) =
     Returned
       (\<lparr>code = ''abc'',
         tokens = [Str ''a'',
                   Token ''eslint-marked''
                     (CArr [Str ''b'',
                            Token ''eslint-message'' (CStr ''M'') (AliasArr [''alert'']) 0])
                     (AliasArr []) 0,
                   Str ''c'']\<rparr>,
        [((Num 1, Num 2), ''M'')])"
proof -
  have st: "contentMustBeMarked example_state = Some (code example_env)"
    by (simp add: example_state_def example_env_def)
  have po: "contentParserOptions example_state = Some ()"
    by (simp add: example_state_def)
  have fatal: "snd (hook (example_collaborators
          [example_message ''M'' 1 2 False, example_message ''F'' 1 1 True])
          example_state example_env) = Returned (example_env, [])"
    using hook_fatal_withheld [OF st po,
        of "example_collaborators
          [example_message ''M'' 1 2 False, example_message ''F'' 1 1 True]"]
    by (simp add: example_collaborators_def example_message_def)
  have clean: "snd (hook (example_collaborators [example_message ''M'' 1 2 False])
          example_state example_env) =
     Returned
       (\<lparr>code = ''abc'',
         tokens = [Str ''a'',
                   Token ''eslint-marked''
                     (CArr [Str ''b'',
                            Token ''eslint-message'' (CStr ''M'') (AliasArr [''alert'']) 0])
                     (AliasArr []) 0,
                   Str ''c'']\<rparr>,
        [((Num 1, Num 2), ''M'')])"
    using hook_fatal_withheld [OF st po,
        of "example_collaborators [example_message ''M'' 1 2 False]"]
    by (simp add: example_collaborators_def example_message_def example_env_def
        messageRange_def getIndexFromLoc_def lineStartIndices_def lf_pattern_def
        splitText_def slice_def slice_from_def Prism_Token_def)
  from st po fatal clean show ?thesis by simp
qed

text \<open>
  Claim C10. The hook changes the token stream only when the code being tokenized is
  the registered content: for any other code it returns with the module state and the
  tokens as they were. When the code is the registered content the registration is
  cleared, so that a second tokenization of the same code is left as it is; and after
  a new registration only the newly registered content is annotated.
\<close>

theorem hook_only_registered_once:
  "(contentMustBeMarked st \<noteq> Some (code e) \<longrightarrow> hook c st e = (st, Returned (e, []))) \<and>
   (contentMustBeMarked st = Some (code e) \<longrightarrow>
      contentMustBeMarked (fst (hook c st e)) = None) \<and>
   (contentMustBeMarked st = Some (code e) \<longrightarrow> code e' = code e \<longrightarrow>
      hook c (fst (hook c st e)) e' = (fst (hook c st e), Returned (e', []))) \<and>
   (code e \<noteq> content \<longrightarrow>
      hook c (addContentMustBeMarked content options st) e =
        (addContentMustBeMarked content options st, Returned (e, [])))"
  by (auto simp: hook_def Let_def addContentMustBeMarked_def split: option.splits)

theorem hook_only_registered_once_witness:
  "contentMustBeMarked example_state \<noteq> Some (code (example_env\<lparr>code := ''abd''\<rparr>)) \<and>
   hook (example_collaborators [example_message ''M'' 1 2 False]) example_state
     (example_env\<lparr>code := ''abd''\<rparr>) = (example_state, Returned (example_env\<lparr>code := ''abd''\<rparr>, [])) \<and>
   contentMustBeMarked example_state = Some (code example_env) \<and>
   contentMustBeMarked (fst (hook (example_collaborators [example_message ''M'' 1 2 False])
      example_state example_env)) = None \<and>
   hook (example_collaborators [example_message ''M'' 1 2 False])
     (fst (hook (example_collaborators [example_message ''M'' 1 2 False])
        example_state example_env)) example_env =
     (fst (hook (example_collaborators [example_message ''M'' 1 2 False])
        example_state example_env), Returned (example_env, [])) \<and>
   code example_env \<noteq> ''xyz'' \<and>
   hook (example_collaborators [example_message ''M'' 1 2 False])
     (addContentMustBeMarked ''xyz'' (Some ()) example_state) example_env =
     (addContentMustBeMarked ''xyz'' (Some ()) example_state, Returned (example_env, []))"
proof -
  have other: "contentMustBeMarked example_state \<noteq> Some (code (example_env\<lparr>code := ''abd''\<rparr>))"
    by (simp add: example_state_def)
  have same: "contentMustBeMarked example_state = Some (code example_env)"
    by (simp add: example_state_def example_env_def)
  have new: "code example_env \<noteq> ''xyz''"
    by (simp add: example_env_def)
  show ?thesis
    using other same new
      hook_only_registered_once [of example_state "example_env\<lparr>code := ''abd''\<rparr>"
        "example_collaborators [example_message ''M'' 1 2 False]" example_env "''xyz''" "Some ()"]
      hook_only_registered_once [of example_state example_env
        "example_collaborators [example_message ''M'' 1 2 False]" example_env "''xyz''" "Some ()"]
    by simp
qed

section \<open>Inputs on which the splitter loses text, wrappers or tokens\<close>

text \<open>
  Claim C1 (reconstitution) fails on the code. First, one range that starts inside a
  token with nested content and ends in a later token: the tree reads \<open>abcdef\<close>
  before and \<open>aef\<close> after, because the \<open>pop\<close> of source line 213 removes
  the wrapper built inside the nested token. Second, two ranges inside one token with
  string content: the piece rebuilt after the first range has \<open>length\<close> 0, so the
  test of source line 169 finds no \<open>after\<close> piece and the tree reads \<open>cons\<close>
  instead of \<open>const\<close>.
\<close>

theorem reconstitution_lost:
  "treeText [Token ''template-string'' (CArr [Str ''ab'', Str ''cd'']) AliasUndefined 4,
             Str ''ef''] = ''abcdef'' \<and>
   treeText (convertMarked
      [Token ''template-string'' (CArr [Str ''ab'', Str ''cd'']) AliasUndefined 4, Str ''ef'']
      (Num 1, Num 5) ''M'' 0) = ''aef'' \<and>
   treeText [Token ''keyword'' (CStr ''const'') AliasUndefined 5] = ''const'' \<and>
   treeText (applyRanges [Token ''keyword'' (CStr ''const'') AliasUndefined 5]
      [((Num 0, Num 2), ''M1''), ((Num 3, Num 4), ''M2'')]) = ''cons''"
  by (simp add: treeText_def splitText_def slice_def slice_from_def Prism_Token_def)

text \<open>
  Claim C2 (one wrapper and one message for each range) fails on the code when a
  spanned token has nested content. A range that runs from a nested token into the
  next token leaves a message and no wrapper; a range that runs from a leaf into a
  nested token leaves two wrappers and one message.
\<close>

theorem wrapper_count_wrong_on_nested:
  "wrapperNodes (convertMarked
      [Token ''template-string'' (CArr [Str ''ab'', Str ''cd'']) AliasUndefined 4, Str ''ef'']
      (Num 1, Num 5) ''M'' 0) = 0 \<and>
   messageNodes (convertMarked
      [Token ''template-string'' (CArr [Str ''ab'', Str ''cd'']) AliasUndefined 4, Str ''ef'']
      (Num 1, Num 5) ''M'' 0) = 1 \<and>
   wrapperNodes (convertMarked
      [Str ''ab'', Token ''template-string'' (CArr [Str ''cd'', Str ''ef'']) AliasUndefined 4,
       Str ''gh'']
      (Num 1, Num 5) ''M'' 0) = 2 \<and>
   messageNodes (convertMarked
      [Str ''ab'', Token ''template-string'' (CArr [Str ''cd'', Str ''ef'']) AliasUndefined 4,
       Str ''gh'']
      (Num 1, Num 5) ''M'' 0) = 1"
  by (simp add: wrapperNodes_def messageNodes_def splitText_def slice_def slice_from_def
      Prism_Token_def)

text \<open>
  Claim C3 (boundary exactness) fails on the code. For the range \<open>[1, 5)\<close> of the
  text \<open>abcdefgh\<close> the wrapper should read \<open>bcde\<close>; with a nested token as the
  second token it reads \<open>bcdef\<close>, and the tokens after it read \<open>gh\<close> instead of
  \<open>fgh\<close>.
\<close>

theorem boundary_not_exact_on_nested:
  "convertMarked
      [Str ''ab'', Token ''template-string'' (CArr [Str ''cd'', Str ''ef'']) AliasUndefined 4,
       Str ''gh'']
      (Num 1, Num 5) ''M'' 0 =
     [Str ''a'',
      Token ''eslint-marked''
        (CArr [Str ''b'',
               Token ''eslint-marked''
                 (CArr [Str ''cd'', Str ''e'',
                        Token ''eslint-message'' (CStr ''M'') (AliasArr [''alert'']) 0])
                 (AliasArr []) 0,
               Str ''f''])
        (AliasArr []) 0,
      Str ''gh''] \<and>
   getTokenContent
     (Token ''eslint-marked''
        (CArr [Str ''b'',
               Token ''eslint-marked''
                 (CArr [Str ''cd'', Str ''e'',
                        Token ''eslint-message'' (CStr ''M'') (AliasArr [''alert'']) 0])
                 (AliasArr []) 0,
               Str ''f''])
        (AliasArr []) 0) = ''bcdef''"
  by (simp add: splitText_def slice_def slice_from_def Prism_Token_def)


text \<open>
  Claim C5 (tokens that only touch the range are passed through; adjacent ranges give
  two wrappers) fails on the code. The token \<open>ab\<close> ends where the range \<open>[2, 4)\<close>
  starts, yet after an empty string it is not passed through. And of the adjacent
  ranges \<open>[1, 5)\<close> and \<open>[5, 6)\<close> neither leaves a wrapper when the first one
  starts inside a nested token.
\<close>

theorem touching_and_adjacent_fail:
  "convertMarked [Str [], Str ''ab'', Str ''cd''] (Num 2, Num 4) ''M'' 0 = [] \<and>
   wrapperNodes (applyRanges
      [Token ''template-string'' (CArr [Str ''ab'', Str ''cd'']) AliasUndefined 4, Str ''ef'']
      [((Num 1, Num 5), ''M1''), ((Num 5, Num 6), ''M2'')]) = 0 \<and>
   messageNodes (applyRanges
      [Token ''template-string'' (CArr [Str ''ab'', Str ''cd'']) AliasUndefined 4, Str ''ef'']
      [((Num 1, Num 5), ''M1''), ((Num 5, Num 6), ''M2'')]) = 1"
  by (simp add: wrapperNodes_def messageNodes_def splitText_def slice_def slice_from_def
      Prism_Token_def)


section \<open>The line-feed tag of a wrapper\<close>

lemma convertMarked_merge_stop:
  "\<not> js_lt (Num n) (snd rng) \<Longrightarrow> convertMarked_merge buffer rng message n result = (result, buffer)"
  by (cases buffer) simp_all

lemma slice_one:
  assumes "0 \<le> k" and "k < int (length s)"
  shows "slice s (Num k) (Num (k + 1)) = [s ! nat k]"
proof -
  have k: "nat k < length s" using assms by linarith
  have "min (nat (k + 1)) (length s) - min (nat k) (length s) = 1"
    using assms by (simp add: min_def) linarith
  moreover have "min (nat k) (length s) = nat k" using k by simp
  moreover have "take 1 (drop (nat k) s) = [s ! nat k]"
    using k by (simp add: take_Suc_conv_app_nth)
  ultimately show ?thesis using assms by (simp add: slice_def Let_def)
qed

lemma splitText_one:
  assumes build: "\<And>x. wrapper_aliases (build x) = []"
    and truthy: "\<And>x. x \<noteq> [] \<Longrightarrow> truthy (Some (build x))"
    and lo: "start \<le> s" and hi: "s < start + int (length (getTokenContent token))"
  shows "concat (map wrapper_aliases
           (yield_if (before (splitText build token (Num s, Num (s + 1)) message start)) @
            [marked (splitText build token (Num s, Num (s + 1)) message start)] @
            yield_if (after (splitText build token (Num s, Num (s + 1)) message start)))) =
         [line_feed_alias (getTokenContent token ! nat (s - start))]"
proof -
  let ?c = "getTokenContent token"
  have one: "slice ?c (Num (s - start)) (Num (s - start + 1)) = [?c ! nat (s - start)]"
    using lo hi by (intro slice_one) auto
  have pre: "start < s \<Longrightarrow> slice ?c (Num 0) (Num (s - start)) \<noteq> []"
    using lo hi by (auto simp: slice_def Let_def min_def)
  have zero: "s - start = 0" if "\<not> start < s" using that lo by simp
  show ?thesis
  proof (cases "start < s")
    case True
    with pre truthy have "truthy (Some (build (slice ?c (Num 0) (Num (s - start)))))" by blast
    with True one show ?thesis
      by (simp add: splitText_def Let_def Prism_Token_def build line_feed_alias_def
          algebra_simps)
  next
    case False
    with zero have z: "s = start" by simp
    from one z have "slice ?c (Num 0) (Num 1) = [?c ! 0]" by simp
    with z show ?thesis
      by (simp add: splitText_def Let_def Prism_Token_def build line_feed_alias_def)
  qed
qed


lemma tag_step_Cons:
  assumes "tag_step ts out c"
  shows "tag_step (t # ts) (t # out) c"
proof -
  from assms obtain xs ys where "concat (map wrapper_aliases ts) = xs @ ys"
    and "concat (map wrapper_aliases out) = xs @ [line_feed_alias c] @ ys"
    unfolding tag_step_def by blast
  then have "concat (map wrapper_aliases (t # ts)) = (wrapper_aliases t @ xs) @ ys \<and>
      concat (map wrapper_aliases (t # out)) = (wrapper_aliases t @ xs) @ [line_feed_alias c] @ ys"
    by simp
  then show ?thesis unfolding tag_step_def by blast
qed

lemma tag_step_append:
  assumes "tag_step ts out c"
  shows "tag_step (ts @ rest) (out @ rest) c"
proof -
  from assms obtain xs ys where "concat (map wrapper_aliases ts) = xs @ ys"
    and "concat (map wrapper_aliases out) = xs @ [line_feed_alias c] @ ys"
    unfolding tag_step_def by blast
  then have "concat (map wrapper_aliases (ts @ rest)) =
        xs @ (ys @ concat (map wrapper_aliases rest)) \<and>
      concat (map wrapper_aliases (out @ rest)) =
        xs @ [line_feed_alias c] @ (ys @ concat (map wrapper_aliases rest))"
    by simp
  then show ?thesis unfolding tag_step_def by blast
qed

lemma convertMarked_one_list:
  assumes elems: "\<And>t start. t \<in> set ts \<Longrightarrow> no_empty_leaf t \<Longrightarrow> start \<le> s \<Longrightarrow>
      s < start + int (length (getTokenContent t)) \<Longrightarrow>
      tag_step [t]
        (yield_if (before (splitToken t (Num s, Num (s + 1)) message start)) @
         [marked (splitToken t (Num s, Num (s + 1)) message start)] @
         yield_if (after (splitToken t (Num s, Num (s + 1)) message start)))
        (getTokenContent t ! nat (s - start))"
    and "list_all no_empty_leaf ts" and "start \<le> s"
    and "s < start + int (length (treeText ts))"
  shows "tag_step ts (convertMarked ts (Num s, Num (s + 1)) message start)
           (treeText ts ! nat (s - start))"
  using assms
proof (induction ts arbitrary: start)
  case Nil
  then show ?case by (simp add: treeText_def)
next
  case (Cons t ts)
  let ?c = "getTokenContent t"
  let ?e = "start + int (length ?c)"
  from Cons.prems(2) have ne: "t \<noteq> Str []" and rest: "list_all no_empty_leaf ts"
    and net: "no_empty_leaf t" by auto
  have tt: "treeText (t # ts) = ?c @ treeText ts" by (simp add: treeText_def)
  show ?case
  proof (cases "?c = [] \<or> ?e \<le> s")
    case True
    have "tag_step ts (convertMarked ts (Num s, Num (s + 1)) message ?e)
            (treeText ts ! nat (s - ?e))"
    proof (rule Cons.IH)
      show "list_all no_empty_leaf ts" by (rule rest)
      show "?e \<le> s" using True Cons.prems(3) by auto
      show "s < ?e + int (length (treeText ts))" using Cons.prems(4) tt by simp
    qed (use Cons.prems(1) in auto)
    moreover have "treeText (t # ts) ! nat (s - start) = treeText ts ! nat (s - ?e)"
    proof -
      have le: "?e \<le> s" using True Cons.prems(3) by auto
      then have "nat (s - start) = length ?c + nat (s - ?e)" using Cons.prems(3) by linarith
      then show ?thesis by (simp add: tt nth_append)
    qed
    ultimately show ?thesis using True ne
      by (simp add: Let_def tag_step_Cons)
  next
    case False
    then have inside: "s < ?e" and nonempty: "?c \<noteq> []" by auto
    have stop: "\<not> js_lt (Num ?e) (snd (Num s, Num (s + 1)))" using inside by simp
    have out: "convertMarked (t # ts) (Num s, Num (s + 1)) message start =
        (yield_if (before (splitToken t (Num s, Num (s + 1)) message start)) @
         [marked (splitToken t (Num s, Num (s + 1)) message start)] @
         yield_if (after (splitToken t (Num s, Num (s + 1)) message start))) @ ts"
      using False ne by (simp add: Let_def convertMarked_merge_stop [OF stop])
    have one: "tag_step [t]
        (yield_if (before (splitToken t (Num s, Num (s + 1)) message start)) @
         [marked (splitToken t (Num s, Num (s + 1)) message start)] @
         yield_if (after (splitToken t (Num s, Num (s + 1)) message start)))
        (?c ! nat (s - start))"
      using Cons.prems(1) [of t start] net Cons.prems(3) inside by simp
    have ch: "treeText (t # ts) ! nat (s - start) = ?c ! nat (s - start)"
    proof -
      have "nat (s - start) < length ?c" using inside Cons.prems(3) by linarith
      then show ?thesis by (simp add: tt nth_append)
    qed
    have "tag_step ([t] @ ts)
        ((yield_if (before (splitToken t (Num s, Num (s + 1)) message start)) @
          [marked (splitToken t (Num s, Num (s + 1)) message start)] @
          yield_if (after (splitToken t (Num s, Num (s + 1)) message start))) @ ts)
        (?c ! nat (s - start))"
      by (rule tag_step_append) (rule one)
    then show ?thesis
      unfolding out ch by simp
  qed
qed


lemma tag_step_leaf:
  assumes "wrapper_aliases t = []"
    and "concat (map wrapper_aliases out) = [line_feed_alias c]"
  shows "tag_step [t] out c"
  unfolding tag_step_def using assms by simp

lemma splitToken_one:
  assumes "no_empty_leaf t" and "start \<le> s"
    and "s < start + int (length (getTokenContent t))"
  shows "tag_step [t]
        (yield_if (before (splitToken t (Num s, Num (s + 1)) message start)) @
         [marked (splitToken t (Num s, Num (s + 1)) message start)] @
         yield_if (after (splitToken t (Num s, Num (s + 1)) message start)))
        (getTokenContent t ! nat (s - start))"
  using assms
proof (induction t arbitrary: start)
  case (Str x)
  show ?case
  proof (rule tag_step_leaf)
    show "wrapper_aliases (Str x) = []" by simp
    show "concat (map wrapper_aliases
        (yield_if (before (splitToken (Str x) (Num s, Num (s + 1)) message start)) @
         [marked (splitToken (Str x) (Num s, Num (s + 1)) message start)] @
         yield_if (after (splitToken (Str x) (Num s, Num (s + 1)) message start)))) =
        [line_feed_alias (getTokenContent (Str x) ! nat (s - start))]"
      unfolding splitToken.simps
      by (rule splitText_one) (use Str.prems in auto)
  qed
next
  case (Token ty c al n)
  from Token.prems(2,3) have msg: "ty \<noteq> ''eslint-message''"
    by (cases c) (auto split: if_splits)
  show ?case
  proof (cases c)
    case (CStr x)
    show ?thesis
      unfolding CStr
    proof (rule tag_step_leaf)
      show "wrapper_aliases (Token ty (CStr x) al n) = []" by simp
      show "concat (map wrapper_aliases
          (yield_if (before (splitToken (Token ty (CStr x) al n) (Num s, Num (s + 1)) message start)) @
           [marked (splitToken (Token ty (CStr x) al n) (Num s, Num (s + 1)) message start)] @
           yield_if (after (splitToken (Token ty (CStr x) al n) (Num s, Num (s + 1)) message start)))) =
          [line_feed_alias (getTokenContent (Token ty (CStr x) al n) ! nat (s - start))]"
        unfolding splitToken.simps
        by (rule splitText_one) (use Token.prems CStr in \<open>auto simp: Prism_Token_def\<close>)
    qed
  next
    case (CTok t')
    have "tag_step [t'] (convertMarked [t'] (Num s, Num (s + 1)) message start)
            (treeText [t'] ! nat (s - start))"
    proof (rule convertMarked_one_list)
      show "list_all no_empty_leaf [t']" using Token.prems(1) CTok by simp
      show "start \<le> s" by (rule Token.prems(2))
      show "s < start + int (length (treeText [t']))"
        using Token.prems(3) CTok msg by (simp add: treeText_def)
    qed (use Token.IH CTok in auto)
    then obtain xs ys where a: "concat (map wrapper_aliases [t']) = xs @ ys"
      and b: "concat (map wrapper_aliases (convertMarked [t'] (Num s, Num (s + 1)) message start)) =
          xs @ [line_feed_alias (treeText [t'] ! nat (s - start))] @ ys"
      unfolding tag_step_def by blast
    have "concat (map wrapper_aliases [Token ty c al n]) =
        ((if ty = ''eslint-marked'' then [al] else []) @ xs) @ ys"
      using a CTok by simp
    moreover have "concat (map wrapper_aliases
        (yield_if (before (splitToken (Token ty c al n) (Num s, Num (s + 1)) message start)) @
         [marked (splitToken (Token ty c al n) (Num s, Num (s + 1)) message start)] @
         yield_if (after (splitToken (Token ty c al n) (Num s, Num (s + 1)) message start)))) =
        ((if ty = ''eslint-marked'' then [al] else []) @ xs) @
        [line_feed_alias (getTokenContent (Token ty c al n) ! nat (s - start))] @ ys"
      using b CTok msg by (simp add: treeText_def)
    ultimately show ?thesis unfolding tag_step_def by blast
  next
    case (CArr ts)
    have "tag_step ts (convertMarked ts (Num s, Num (s + 1)) message start)
            (treeText ts ! nat (s - start))"
    proof (rule convertMarked_one_list)
      show "list_all no_empty_leaf ts" using Token.prems(1) CArr by simp
      show "start \<le> s" by (rule Token.prems(2))
      show "s < start + int (length (treeText ts))"
        using Token.prems(3) CArr msg by (simp add: treeText_def)
    qed (use Token.IH CArr in auto)
    then obtain xs ys where a: "concat (map wrapper_aliases ts) = xs @ ys"
      and b: "concat (map wrapper_aliases (convertMarked ts (Num s, Num (s + 1)) message start)) =
          xs @ [line_feed_alias (treeText ts ! nat (s - start))] @ ys"
      unfolding tag_step_def by blast
    have "concat (map wrapper_aliases [Token ty c al n]) =
        ((if ty = ''eslint-marked'' then [al] else []) @ xs) @ ys"
      using a CArr by simp
    moreover have "concat (map wrapper_aliases
        (yield_if (before (splitToken (Token ty c al n) (Num s, Num (s + 1)) message start)) @
         [marked (splitToken (Token ty c al n) (Num s, Num (s + 1)) message start)] @
         yield_if (after (splitToken (Token ty c al n) (Num s, Num (s + 1)) message start)))) =
        ((if ty = ''eslint-marked'' then [al] else []) @ xs) @
        [line_feed_alias (getTokenContent (Token ty c al n) ! nat (s - start))] @ ys"
      using b CArr msg by (simp add: treeText_def)
    ultimately show ?thesis unfolding tag_step_def by blast
  qed
qed


text \<open>
  Claim C6, as the code has it. The claim speaks of a line-break character; the code
  compares the wrapped text with the line feed alone (source line 165), so a wrapper
  around a carriage return carries no tag.
\<close>

theorem carriage_return_not_tagged:
  "convertMarked [Str [CHR 0x0D]] (Num 0, Num 1) ''M'' 0 =
     [Token ''eslint-marked''
        (CArr [Str [CHR 0x0D], Token ''eslint-message'' (CStr ''M'') (AliasArr [''alert'']) 0])
        (AliasArr []) 0]"
  by (simp add: splitText_def slice_def slice_from_def Prism_Token_def)

text \<open>
  Claim C6, amended. In a tree without an empty string, a range of length one over a
  character of the text adds exactly one wrapper: the wrappers of the result are the
  wrappers of the tree, with their aliases and in their order, and one more. The new
  wrapper carries \<open>eslint-marked-line-feed\<close> when the character under the range is
  the line feed, and no alias for any other character.
\<close>

theorem line_feed_tag:
  assumes "list_all no_empty_leaf tree" and "0 \<le> s"
    and "s < int (length (treeText tree))"
  shows "\<exists>xs ys. concat (map wrapper_aliases tree) = xs @ ys \<and>
     concat (map wrapper_aliases (convertMarked tree (Num s, Num (s + 1)) message 0)) =
       xs @ [if treeText tree ! nat s = CHR 0x0A
             then AliasArr [''eslint-marked-line-feed''] else AliasArr []] @ ys"
proof -
  have "tag_step tree (convertMarked tree (Num s, Num (s + 1)) message 0)
          (treeText tree ! nat (s - 0))"
  proof (rule convertMarked_one_list)
    show "list_all no_empty_leaf tree" by (rule assms(1))
    show "0 \<le> s" by (rule assms(2))
    show "s < 0 + int (length (treeText tree))" using assms(3) by simp
  qed (rule splitToken_one)
  then show ?thesis by (simp add: tag_step_def line_feed_alias_def)
qed

theorem line_feed_tag_witness:
  "list_all no_empty_leaf [Str [CHR ''a'', CHR 0x0A]] \<and> (0::int) \<le> 1 \<and>
   (1::int) < int (length (treeText [Str [CHR ''a'', CHR 0x0A]])) \<and>
   (\<exists>xs ys. concat (map wrapper_aliases [Str [CHR ''a'', CHR 0x0A]]) = xs @ ys \<and>
      concat (map wrapper_aliases
        (convertMarked [Str [CHR ''a'', CHR 0x0A]] (Num 1, Num 2) ''M'' 0)) =
        xs @ [AliasArr [''eslint-marked-line-feed'']] @ ys)"
proof -
  have a: "list_all no_empty_leaf [Str [CHR ''a'', CHR 0x0A]]" by simp
  have b: "(0::int) \<le> 1" by simp
  have c: "(1::int) < int (length (treeText [Str [CHR ''a'', CHR 0x0A]]))"
    by (simp add: treeText_def)
  from line_feed_tag [OF a b c, of "''M''"] a b c show ?thesis
    by (simp add: treeText_def)
qed

section \<open>What a call writes to the objects it was given\<close>

lemma frame_iff:
  "frame h h' \<longleftrightarrow>
     length h \<le> length h' \<and>
     (\<forall>a < length h. o_type (h' ! a) = o_type (h ! a) \<and> o_alias (h' ! a) = o_alias (h ! a) \<and>
        o_length (h' ! a) = o_length (h ! a) \<and>
        (\<forall>s. o_content (h ! a) = OStr s \<longrightarrow> h' ! a = h ! a))"
proof -
  have c: "(case c of OStr s \<Rightarrow> P | _ \<Rightarrow> True) \<longleftrightarrow> (\<forall>s. c = OStr s \<longrightarrow> P)" for c P
    by (cases c) auto
  show ?thesis unfolding frame_def list_all_iff c by auto
qed

lemma frame_refl: "frame h h"
  by (simp add: frame_iff)

lemma frame_trans [trans]:
  assumes "frame h1 h2" and "frame h2 h3"
  shows "frame h1 h3"
  unfolding frame_iff
proof (intro conjI allI impI)
  show "length h1 \<le> length h3" using assms unfolding frame_iff by linarith
next
  fix a assume a: "a < length h1"
  then have a2: "a < length h2" using assms(1) unfolding frame_iff by linarith
  from assms(1) a have s1: "o_type (h2 ! a) = o_type (h1 ! a)" "o_alias (h2 ! a) = o_alias (h1 ! a)"
    "o_length (h2 ! a) = o_length (h1 ! a)" unfolding frame_iff by blast+
  from assms(2) a2 have s2: "o_type (h3 ! a) = o_type (h2 ! a)" "o_alias (h3 ! a) = o_alias (h2 ! a)"
    "o_length (h3 ! a) = o_length (h2 ! a)" unfolding frame_iff by blast+
  show "o_type (h3 ! a) = o_type (h1 ! a)" using s1 s2 by simp
  show "o_alias (h3 ! a) = o_alias (h1 ! a)" using s1 s2 by simp
  show "o_length (h3 ! a) = o_length (h1 ! a)" using s1 s2 by simp
  fix s assume c: "o_content (h1 ! a) = OStr s"
  with assms(1) a have e1: "h2 ! a = h1 ! a" unfolding frame_iff by blast
  with c have "o_content (h2 ! a) = OStr s" by simp
  with assms(2) a2 have "h3 ! a = h2 ! a" unfolding frame_iff by blast
  with e1 show "h3 ! a = h1 ! a" by simp
qed

lemma frame_append: "frame h (h @ xs)"
  by (simp add: frame_iff nth_append)

lemma frame_new_Token: "frame h (fst (new_Token h ty c al))"
  by (simp add: new_Token_def frame_append)

lemma frame_set_content:
  assumes "frame h h'" and "a < length h'"
    and "a < length h \<Longrightarrow> \<forall>s. o_content (h ! a) \<noteq> OStr s"
  shows "frame h (h'[a := (h' ! a)\<lparr>o_content := c\<rparr>])"
  using assms unfolding frame_iff by (auto simp: nth_list_update)

lemma frame_popS: "popS h a = Some h' \<Longrightarrow> frame h h'"
  by (auto simp: popS_def frame_iff nth_list_update split: if_splits obj_content.splits)

lemma frame_pushS: "pushS h a xs = Some h' \<Longrightarrow> frame h h'"
  by (auto simp: pushS_def frame_iff nth_list_update split: if_splits obj_content.splits)

lemma frame_splitTextS:
  assumes build: "\<And>h c. frame h (fst (build h c))"
  shows "frame h (fst (splitTextS build n content rng message tokenStart h))"
proof -
  define b1 where "b1 = build h (slice content (Num 0) (js_sub (fst rng) (Num tokenStart)))"
  define h1 where "h1 = (if js_lt (Num tokenStart) (fst rng) then fst b1 else h)"
  define before where
    "before = (if js_lt (Num tokenStart) (fst rng) then Some (snd b1) else None)"
  define mark where "mark = slice content
      (if truthyS before then js_sub (fst rng) (Num tokenStart) else Num 0)
      (js_sub (snd rng) (Num tokenStart))"
  define b2 where "b2 = build h1 mark"
  define m where "m = new_Token (fst b2) ''eslint-message'' (OStr message) (AliasArr [''alert''])"
  define h4 where "h4 = fst m @ [\<lparr>o_type = ''eslint-marked'', o_content = OArr [snd b2, snd m],
       o_alias = (if mark = [CHR 0x0A] \<and> js_eq (js_add (fst rng) (Num 1)) (snd rng)
                  then AliasArr [''eslint-marked-line-feed''] else AliasArr []),
       o_length = 0\<rparr>]"
  define b3 where "b3 = build h4 (slice_from content (js_sub (snd rng) (Num tokenStart)))"
  define h5 where "h5 = (if js_lt (js_sub (snd rng) (Num tokenStart)) (Num (int n))
      then fst b3 else h4)"
  have eq: "fst (splitTextS build n content rng message tokenStart h) = h5"
    unfolding splitTextS_def Let_def h5_def b3_def h4_def m_def b2_def mark_def before_def
      h1_def b1_def
    by (simp add: split_beta)
  have "frame h h1" unfolding h1_def b1_def by (simp add: build frame_refl)
  also have "frame h1 (fst b2)" unfolding b2_def by (rule build)
  also have "frame (fst b2) (fst m)" unfolding m_def by (rule frame_new_Token)
  also have "frame (fst m) h4" unfolding h4_def by (rule frame_append)
  also have "frame h4 h5" unfolding h5_def b3_def by (simp add: build frame_refl)
  finally show ?thesis unfolding eq .
qed


lemma frame_walk:
  shows "splitTokenS depth h v rng message tokenStart = Some (h', r) \<Longrightarrow> frame h h'"
    and "convertMarkedS depth h buffer rng message start = Some (h', out) \<Longrightarrow> frame h h'"
    and "convertMarked_mergeS depth h buffer rng message idx result = Some (h', m, rest) \<Longrightarrow>
         frame h h'"
proof (induction depth h v rng message tokenStart
    and depth h buffer rng message start
    and depth h buffer rng message idx result
    arbitrary: h' r and h' out and h' m rest
    rule: splitTokenS_convertMarkedS_convertMarked_mergeS.induct)
  case (1 depth h s rng message tokenStart)
  have "frame h (fst (splitTextS (\<lambda>h' newContent. (h', VStr newContent)) (length s) s rng
      message tokenStart h))"
    by (rule frame_splitTextS) (simp add: frame_refl)
  with "1.prems" show ?case by auto
next
  case (2 depth h a rng message tokenStart)
  from "2.prems" have a: "a < length h" by (simp split: if_splits)
  show ?case
  proof (cases "o_content (h ! a)")
    case (OStr s)
    have "frame h (fst (splitTextS
        (\<lambda>h' newContent. new_Token h' (o_type (h ! a)) (OStr newContent) (o_alias (h ! a)))
        (o_length (h ! a)) (if o_type (h ! a) = ''eslint-message'' then [] else s)
        rng message tokenStart h))"
      by (rule frame_splitTextS) (rule frame_new_Token)
    with "2.prems" a OStr show ?thesis by auto
  next
    case (OTok b)
    with "2.prems" a obtain d h1 out where d: "depth = Suc d"
      and run: "convertMarkedS d h (flatS (OTok b)) rng message tokenStart = Some (h1, out)"
      and h': "h' = h1[a := (h1 ! a)\<lparr>o_content := OArr out\<rparr>]"
      by (auto split: nat.splits option.splits)
    have f: "frame h h1" using "2.IH"(1) [OF a OTok d run] .
    then have "a < length h1" using a by (simp add: frame_iff)
    with f show ?thesis unfolding h' by (rule frame_set_content) (simp add: OTok)
  next
    case (OArr vs)
    with "2.prems" a obtain d h1 out where d: "depth = Suc d"
      and run: "convertMarkedS d h (flatS (OArr vs)) rng message tokenStart = Some (h1, out)"
      and h': "h' = h1[a := (h1 ! a)\<lparr>o_content := OArr out\<rparr>]"
      by (auto split: nat.splits option.splits)
    have f: "frame h h1" using "2.IH"(2) [OF a OArr d run] .
    then have "a < length h1" using a by (simp add: frame_iff)
    with f show ?thesis unfolding h' by (rule frame_set_content) (simp add: OArr)
  qed
next
  case (3 depth h rng message start)
  then show ?case by (simp add: frame_refl)
next
  case (4 depth h token buffer rng message start)
  show ?case
  proof (cases "token = VStr []")
    case True
    with "4.prems" show ?thesis by (simp add: frame_refl)
  next
    case False
    with "4.prems" obtain content where c: "getTokenContentS depth h token = Some content"
      by (auto split: option.splits)
    let ?e = "start + int (length content)"
    show ?thesis
    proof (cases "content = [] \<or> js_le (Num ?e) (fst rng)")
      case True
      with "4.prems" False c obtain out' where
        "convertMarkedS depth h buffer rng message ?e = Some (h', out')"
        by (auto simp: Let_def split: option.splits)
      then show ?thesis using "4.IH"(1) [OF False c refl True] by blast
    next
      case no: False
      with "4.prems" False c obtain h1 result h2 merged remaining where
        sp: "splitTokenS depth h token rng message start = Some (h1, result)"
        and mg: "convertMarked_mergeS depth h1 buffer rng message ?e result =
                   Some (h2, merged, remaining)"
        and eq: "h' = h2"
        by (auto simp: Let_def split: option.splits)
      have "frame h h1" using "4.IH"(2) [OF False c refl no sp] .
      also have "frame h1 h2" using "4.IH"(3) [OF False c refl no sp refl mg] .
      finally show ?thesis unfolding eq .
    qed
  qed
next
  case (5 depth h rng message nextTokenStartIndex result)
  then show ?case by (simp add: frame_refl)
next
  case (6 depth h nextToken buffer rng message nextTokenStartIndex result)
  show ?case
  proof (cases "js_lt (Num nextTokenStartIndex) (snd rng)")
    case False
    with "6.prems" show ?thesis by (simp add: frame_refl)
  next
    case True
    with "6.prems" obtain h1 nxt h2 xs h3 content where
      sp: "splitTokenS depth h nextToken rng message nextTokenStartIndex = Some (h1, nxt)"
      and pop: "popS h1 (s_marked result) = Some h2"
      and arr: "content_arrayS h2 (s_marked nxt) = Some xs"
      and push: "pushS h2 (s_marked result) xs = Some h3"
      and c: "getTokenContentS depth h3 nextToken = Some content"
      and rec: "convertMarked_mergeS depth h3 buffer rng message
          (nextTokenStartIndex + int (length content))
          (result\<lparr>s_after := if truthyS (s_after nxt) then s_after nxt else s_after result\<rparr>) =
          Some (h', m, rest)"
      by (auto split: option.splits)
    have "frame h h1" using "6.IH"(1) [OF True sp] .
    also have "frame h1 h2" using pop by (rule frame_popS)
    also have "frame h2 h3" using push by (rule frame_pushS)
    also have "frame h3 h'" using "6.IH"(2) [OF True sp refl pop arr push c rec] .
    finally show ?thesis .
  qed
qed

text \<open>
  The two models agree on every input with token objects that is evaluated in this
  theory: the tokens that the store holds after the call are the tokens that the
  functions on values compute.
\<close>

lemma store_agrees_on_examples:
  "to_tokens 3 (convertMarkedS 3 example_store [VObj 1, VStr ''ef''] (Num 1, Num 5) ''M'' 0) =
     Some (convertMarked
       [Token ''template-string'' (CArr [Str ''ab'', Str ''cd'']) AliasUndefined 4, Str ''ef'']
       (Num 1, Num 5) ''M'' 0)"
  "to_tokens 3 (convertMarkedS 3 example_store [VStr ''ab'', VObj 2, VStr ''gh''] (Num 1, Num 5) ''M'' 0) =
     Some (convertMarked
       [Str ''ab'', Token ''template-string'' (CArr [Str ''cd'', Str ''ef'']) AliasUndefined 4,
        Str ''gh'']
       (Num 1, Num 5) ''M'' 0)"
  "to_tokens 3 (convertMarkedS 3 example_store [VObj 0, VObj 1] (Num 1, Num 7) ''M'' 0) =
     Some (convertMarked
       [Token ''keyword'' (CStr ''const'') AliasUndefined 5,
        Token ''template-string'' (CArr [Str ''ab'', Str ''cd'']) AliasUndefined 4]
       (Num 1, Num 7) ''M'' 0)"
  "to_tokens 3 (applyRangesS 3 example_store [VObj 0]
       [((Num 0, Num 2), ''M1''), ((Num 3, Num 4), ''M2'')]) =
     Some (applyRanges [Token ''keyword'' (CStr ''const'') AliasUndefined 5]
       [((Num 0, Num 2), ''M1''), ((Num 3, Num 4), ''M2'')])"
  "to_tokens 3 (applyRangesS 3 example_store [VObj 1, VStr ''ef'']
       [((Num 1, Num 5), ''M1''), ((Num 5, Num 6), ''M2'')]) =
     Some (applyRanges
       [Token ''template-string'' (CArr [Str ''ab'', Str ''cd'']) AliasUndefined 4, Str ''ef'']
       [((Num 1, Num 5), ''M1''), ((Num 5, Num 6), ''M2'')])"
  by (simp_all add: Let_def to_tokens_def example_store_def splitTextS_def splitText_def slice_def
      slice_from_def new_Token_def Prism_Token_def popS_def pushS_def content_arrayS_def)

text \<open>
  Claim C9 fails on the code. A range inside a token with nested content is applied by
  assigning to the \<open>content\<close> of that token (source line 148): after the call the
  object at address 0, a node of the input tree, holds the converted sequence.
\<close>

theorem nested_token_written:
  "convertMarkedS 1
     [\<lparr>o_type = ''template-string'', o_content = OArr [VStr ''ab'', VStr ''cd''],
       o_alias = AliasUndefined, o_length = 4\<rparr>]
     [VObj 0] (Num 1, Num 2) ''M'' 0 =
   Some ([\<lparr>o_type = ''template-string'', o_content = OArr [VStr ''a'', VObj 2, VStr ''cd''],
            o_alias = AliasUndefined, o_length = 4\<rparr>,
          \<lparr>o_type = ''eslint-message'', o_content = OStr ''M'', o_alias = AliasArr [''alert''],
            o_length = 0\<rparr>,
          \<lparr>o_type = ''eslint-marked'', o_content = OArr [VStr ''b'', VObj 1],
            o_alias = AliasArr [], o_length = 0\<rparr>],
         [VObj 0])"
  by (simp add: Let_def splitTextS_def slice_def slice_from_def new_Token_def)

section \<open>A range that meets no nested token writes to no object of its input\<close>

lemma those_map_Some:
  "those (map f xs) = Some ys \<longleftrightarrow> list_all2 (\<lambda>x y. f x = Some y) xs ys"
proof (induction xs arbitrary: ys)
  case Nil
  then show ?case by auto
next
  case (Cons x xs)
  show ?case
    by (cases "f x"; cases "those (map f xs)")
      (auto simp: list_all2_Cons1 Cons.IH [symmetric])
qed

lemma to_token_append:
  "to_token d h v = Some t \<Longrightarrow> to_token d (h @ xs) v = Some t"
proof (induction d arbitrary: v t)
  case 0
  then show ?case
    by (cases v) (auto simp: nth_append split: if_splits obj_content.splits)
next
  case (Suc d)
  show ?case
  proof (cases v)
    case (VStr s)
    with Suc.prems show ?thesis by simp
  next
    case (VObj a)
    with Suc.prems have a: "a < length h" by (simp split: if_splits)
    show ?thesis
    proof (cases "o_content (h ! a)")
      case (OStr s)
      with Suc.prems VObj a show ?thesis by (simp add: nth_append)
    next
      case (OTok b)
      with Suc.prems VObj a obtain t' where "to_token d h (VObj b) = Some t'"
        and t: "t = Token (o_type (h ! a)) (CTok t') (o_alias (h ! a)) (o_length (h ! a))"
        by auto
      then have "to_token d (h @ xs) (VObj b) = Some t'" by (intro Suc.IH)
      with VObj a OTok t show ?thesis by (simp add: nth_append)
    next
      case (OArr vs)
      with Suc.prems VObj a obtain ts where r: "those (map (to_token d h) vs) = Some ts"
        and t: "t = Token (o_type (h ! a)) (CArr ts) (o_alias (h ! a)) (o_length (h ! a))"
        by auto
      from r have "list_all2 (\<lambda>x y. to_token d h x = Some y) vs ts"
        by (simp add: those_map_Some)
      then have "list_all2 (\<lambda>x y. to_token d (h @ xs) x = Some y) vs ts"
        by (rule list_all2_mono) (rule Suc.IH)
      then have "those (map (to_token d (h @ xs)) vs) = Some ts"
        by (simp add: those_map_Some)
      with VObj a OArr t show ?thesis by (simp add: nth_append)
    qed
  qed
qed

lemma to_token_Suc:
  "to_token d h v = Some t \<Longrightarrow> to_token (Suc d) h v = Some t"
proof (induction d arbitrary: v t)
  case 0
  then show ?case
    by (cases v) (auto split: if_splits obj_content.splits)
next
  case (Suc d)
  show ?case
  proof (cases v)
    case (VStr s)
    with Suc.prems show ?thesis by simp
  next
    case (VObj a)
    with Suc.prems have a: "a < length h" by (simp split: if_splits)
    show ?thesis
    proof (cases "o_content (h ! a)")
      case (OStr s)
      with Suc.prems VObj a show ?thesis by simp
    next
      case (OTok b)
      with Suc.prems VObj a obtain t' where "to_token d h (VObj b) = Some t'"
        and t: "t = Token (o_type (h ! a)) (CTok t') (o_alias (h ! a)) (o_length (h ! a))"
        by auto
      then have "to_token (Suc d) h (VObj b) = Some t'" by (intro Suc.IH)
      with VObj a OTok t show ?thesis by simp
    next
      case (OArr vs)
      with Suc.prems VObj a obtain ts where r: "those (map (to_token d h) vs) = Some ts"
        and t: "t = Token (o_type (h ! a)) (CArr ts) (o_alias (h ! a)) (o_length (h ! a))"
        by auto
      from r have "list_all2 (\<lambda>x y. to_token d h x = Some y) vs ts"
        by (simp add: those_map_Some)
      then have "list_all2 (\<lambda>x y. to_token (Suc d) h x = Some y) vs ts"
        by (rule list_all2_mono) (rule Suc.IH)
      then have "those (map (to_token (Suc d) h) vs) = Some ts"
        by (simp add: those_map_Some)
      with VObj a OArr t show ?thesis by simp
    qed
  qed
qed

lemma to_token_mono:
  assumes "d \<le> d'" and "to_token d h v = Some t"
  shows "to_token d' h v = Some t"
  using assms by (induction rule: dec_induct) (auto intro: to_token_Suc)

lemma getTokenContentS_to_token:
  "to_token d h v = Some t \<Longrightarrow> getTokenContentS d h v = Some (getTokenContent t)"
proof (induction d arbitrary: v t)
  case 0
  then show ?case
    by (cases v) (auto split: if_splits obj_content.splits)
next
  case (Suc d)
  show ?case
  proof (cases v)
    case (VStr s)
    with Suc.prems show ?thesis by auto
  next
    case (VObj a)
    with Suc.prems have a: "a < length h" by (simp split: if_splits)
    show ?thesis
    proof (cases "o_content (h ! a)")
      case (OStr s)
      with Suc.prems VObj a show ?thesis by auto
    next
      case (OTok b)
      with Suc.prems VObj a obtain t' where r: "to_token d h (VObj b) = Some t'"
        and t: "t = Token (o_type (h ! a)) (CTok t') (o_alias (h ! a)) (o_length (h ! a))"
        by auto
      from r have "getTokenContentS d h (VObj b) = Some (getTokenContent t')" by (rule Suc.IH)
      with VObj a OTok t show ?thesis by simp
    next
      case (OArr vs)
      with Suc.prems VObj a obtain ts where r: "those (map (to_token d h) vs) = Some ts"
        and t: "t = Token (o_type (h ! a)) (CArr ts) (o_alias (h ! a)) (o_length (h ! a))"
        by auto
      from r have "list_all2 (\<lambda>x y. to_token d h x = Some y) vs ts"
        by (simp add: those_map_Some)
      then have "list_all2 (\<lambda>x y. getTokenContentS d h x = Some y) vs (map getTokenContent ts)"
        by (simp add: list_all2_map2) (erule list_all2_mono, rule Suc.IH)
      then have "those (map (getTokenContentS d h) vs) = Some (map getTokenContent ts)"
        by (simp add: those_map_Some)
      with VObj a OArr t show ?thesis by simp
    qed
  qed
qed


lemma piece_cases:
  "piece h v t \<longleftrightarrow>
     (\<exists>s. v = VStr s \<and> t = Str s) \<or>
     (\<exists>a s. v = VObj a \<and> a < length h \<and> o_content (h ! a) = OStr s \<and>
        t = Token (o_type (h ! a)) (CStr s) (o_alias (h ! a)) (o_length (h ! a)))"
  by (cases v) (auto simp: piece_def split: obj_content.splits)

lemma piece_frame: "piece h v t \<Longrightarrow> frame h h' \<Longrightarrow> piece h' v t"
  unfolding piece_cases frame_iff by (elim disjE exE conjE) (simp, force)

lemma piece_truthy: "piece h v t \<Longrightarrow> truthyS (Some v) = truthy (Some t)"
  unfolding piece_cases by auto

lemma opt_piece_truthy: "opt_piece h x y \<Longrightarrow> truthyS x = truthy y"
  by (cases "(h, x, y)" rule: opt_piece.cases) (auto dest: piece_truthy)

lemma opt_piece_frame: "opt_piece h x y \<Longrightarrow> frame h h' \<Longrightarrow> opt_piece h' x y"
  by (cases "(h, x, y)" rule: opt_piece.cases) (auto intro: piece_frame)

lemma opt_piece_yield: "opt_piece h x y \<Longrightarrow> list_all2 (piece h) (yield_ifS x) (yield_if y)"
  by (cases "(h, x, y)" rule: opt_piece.cases) (auto dest: piece_truthy)

lemma flat_piece: "to_token d h v = Some t \<Longrightarrow> \<not> nested t \<Longrightarrow> piece h v t"
  by (cases v; cases d) (auto simp: piece_def split: if_splits obj_content.splits)

lemma piece_to_token: "piece h v t \<Longrightarrow> to_token d h v = Some t"
  unfolding piece_def by (rule to_token_mono [of 0]) simp_all

lemma piece_plain: "piece h v t \<Longrightarrow> \<not> nested t"
  unfolding piece_cases by auto

lemma splitTokenS_piece:
  assumes "piece h v t"
  shows "\<exists>xs r. splitTokenS d h v rng message start = Some (h @ xs, r) \<and>
     result_rel (h @ xs) (length h) r (splitToken t rng message start)"
  using assms unfolding piece_cases
proof (elim disjE exE conjE)
  fix s assume "v = VStr s" "t = Str s"
  then show ?thesis
    by (auto simp: splitTextS_def splitText_def Let_def new_Token_def Prism_Token_def
        result_rel_def piece_def nth_append)
next
  fix a s assume "v = VObj a" "a < length h" "o_content (h ! a) = OStr s"
    "t = Token (o_type (h ! a)) (CStr s) (o_alias (h ! a)) (o_length (h ! a))"
  then show ?thesis
    by (auto simp: splitTextS_def splitText_def Let_def new_Token_def Prism_Token_def
        result_rel_def piece_def nth_append)
qed


lemma list_all2_butlast:
  "list_all2 P xs ys \<Longrightarrow> list_all2 P (butlast xs) (butlast ys)"
  by (simp add: butlast_conv_take list_all2_lengthD list_all2_takeI)

lemma update_past_prefix:
  "length h0 \<le> m \<Longrightarrow> \<exists>ys'. (h0 @ ys)[m := x] = h0 @ ys'"
  by (simp add: list_update_append)

lemma token_after_split_plain: "\<not> nested t \<Longrightarrow> token_after_split t r = t"
  by (cases t rule: nested.cases) simp_all

lemma convertMarked_mergeS_clear:
  assumes "list_all2 (\<lambda>v t. to_token d h0 v = Some t) buf tsb"
    and "merge_clear tsb rng idx"
    and "result_rel (h0 @ xs) (length h0) res Res"
  shows "\<exists>ys res' rest.
     convertMarked_mergeS d (h0 @ xs) buf rng message idx res = Some (h0 @ ys, res', rest) \<and>
     frame (h0 @ xs) (h0 @ ys) \<and>
     result_rel (h0 @ ys) (length h0) res' (fst (convertMarked_merge tsb rng message idx Res)) \<and>
     list_all2 (\<lambda>v t. to_token d h0 v = Some t) rest
       (snd (convertMarked_merge tsb rng message idx Res))"
  using assms
proof (induction buf arbitrary: tsb idx res Res xs)
  case Nil
  then show ?case by (auto simp: frame_refl)
next
  case (Cons v buf)
  from Cons.prems(1) obtain t tsb' where tsb: "tsb = t # tsb'"
    and vt: "to_token d h0 v = Some t"
    and rest: "list_all2 (\<lambda>v t. to_token d h0 v = Some t) buf tsb'"
    by (auto simp: list_all2_Cons1)
  let ?hc = "h0 @ xs"
  show ?case
  proof (cases "js_lt (Num idx) (snd rng)")
    case False
    with Cons.prems tsb show ?thesis
      by (intro exI [of _ xs]) (auto simp: frame_refl)
  next
    case True
    with Cons.prems(2) tsb have flat: "\<not> nested t"
      and clear: "merge_clear tsb' rng (idx + int (length (getTokenContent t)))"
      by simp_all
    let ?Next = "splitToken t rng message idx"
    have pc: "piece ?hc v t"
      using vt flat by (intro flat_piece [of d]) (rule to_token_append)
    from splitTokenS_piece [OF pc, of d rng message idx]
    obtain zs nxt where sp: "splitTokenS d ?hc v rng message idx = Some (?hc @ zs, nxt)"
      and nrel: "result_rel (?hc @ zs) (length ?hc) nxt ?Next"
      by blast
    let ?h1 = "?hc @ zs"
    let ?m = "s_marked res"
    from Cons.prems(3) obtain vals toks al where
      m0: "length h0 \<le> ?m" and m1: "?m < length ?hc"
      and mobj: "?hc ! ?m = \<lparr>o_type = ''eslint-marked'', o_content = OArr vals, o_alias = al,
                              o_length = 0\<rparr>"
      and mtok: "marked Res = Token ''eslint-marked'' (CArr toks) al 0"
      and mvals: "list_all2 (piece ?hc) vals toks"
      and bef: "opt_piece ?hc (s_before res) (before Res)"
      and aft: "opt_piece ?hc (s_after res) (after Res)"
      unfolding result_rel_def by blast
    let ?mn = "s_marked nxt"
    from nrel obtain nvals ntoks nal where
      n0: "length ?hc \<le> ?mn" and n1: "?mn < length ?h1"
      and nobj: "?h1 ! ?mn = \<lparr>o_type = ''eslint-marked'', o_content = OArr nvals, o_alias = nal,
                               o_length = 0\<rparr>"
      and ntok: "marked ?Next = Token ''eslint-marked'' (CArr ntoks) nal 0"
      and nvals: "list_all2 (piece ?h1) nvals ntoks"
      and naft: "opt_piece ?h1 (s_after nxt) (after ?Next)"
      unfolding result_rel_def by blast
    have m1': "?m < length ?h1" using m1 by simp
    have mobj1: "?h1 ! ?m = \<lparr>o_type = ''eslint-marked'', o_content = OArr vals, o_alias = al,
                               o_length = 0\<rparr>"
      using nth_append_left [OF m1, of zs] mobj by (rule trans)
    define h2 where "h2 = ?h1[?m := (?h1 ! ?m)\<lparr>o_content := OArr (butlast vals)\<rparr>]"
    have pop: "popS ?h1 ?m = Some h2"
      using m1' mobj1 by (simp add: popS_def h2_def)
    have neq: "?mn \<noteq> ?m" using n0 m1 by simp
    have arr: "content_arrayS h2 ?mn = Some nvals"
      using n1 nobj neq by (simp add: content_arrayS_def h2_def)
    define h3 where "h3 = h2[?m := (h2 ! ?m)\<lparr>o_content := OArr (butlast vals @ nvals)\<rparr>]"
    have push: "pushS h2 ?m nvals = Some h3"
      using m1' mobj1 by (simp add: pushS_def h2_def h3_def)
    have f1: "frame ?hc ?h1" by (rule frame_append)
    have f3: "frame ?h1 h3"
      using frame_popS [OF pop] frame_pushS [OF push] by (rule frame_trans)
    have fc3: "frame ?hc h3" using f1 f3 by (rule frame_trans)
    have pv3: "piece h3 v t" using pc fc3 by (rule piece_frame)
    have rd: "getTokenContentS d h3 v = Some (getTokenContent t)"
      using pv3 by (intro getTokenContentS_to_token piece_to_token)
    obtain ys3 where h3eq: "h3 = h0 @ ys3"
    proof -
      have "?h1 = h0 @ (xs @ zs)" by simp
      then obtain a where "h2 = h0 @ a"
        unfolding h2_def using update_past_prefix [OF m0] by metis
      then obtain b where "h3 = h0 @ b"
        unfolding h3_def using update_past_prefix [OF m0] by metis
      then show ?thesis by (rule that)
    qed
    let ?res2 = "res\<lparr>s_after := if truthyS (s_after nxt) then s_after nxt else s_after res\<rparr>"
    let ?Res2 = "Res\<lparr>
        marked := content_push (content_pop (marked Res)) (content_array (marked ?Next)),
        after := (if truthy (after ?Next) then after ?Next else after Res)\<rparr>"
    have len3: "length h3 = length ?h1" by (simp add: h3_def h2_def)
    have obj3: "h3 ! ?m = \<lparr>o_type = ''eslint-marked'', o_content = OArr (butlast vals @ nvals),
        o_alias = al, o_length = 0\<rparr>"
      using m1' mobj1 by (simp add: h3_def h2_def)
    have vals3: "list_all2 (piece h3) (butlast vals @ nvals) (butlast toks @ ntoks)"
    proof (rule list_all2_appendI)
      have "list_all2 (piece h3) vals toks"
        using mvals by (rule list_all2_mono) (rule piece_frame [OF _ fc3])
      then show "list_all2 (piece h3) (butlast vals) (butlast toks)"
        by (rule list_all2_butlast)
      show "list_all2 (piece h3) nvals ntoks"
        using nvals by (rule list_all2_mono) (rule piece_frame [OF _ f3])
    qed
    have tr: "truthyS (s_after nxt) = truthy (after ?Next)"
      using naft by (rule opt_piece_truthy)
    have aft3: "opt_piece h3 (s_after ?res2) (after ?Res2)"
      using tr opt_piece_frame [OF naft f3] opt_piece_frame [OF aft fc3] by simp
    have bef3: "opt_piece h3 (s_before ?res2) (before ?Res2)"
      using opt_piece_frame [OF bef fc3] by simp
    have rel3: "result_rel (h0 @ ys3) (length h0) ?res2 ?Res2"
      unfolding result_rel_def h3eq [symmetric]
      using bef3 aft3 m0 m1' len3 obj3 vals3 mtok ntok by auto
    from Cons.IH [OF rest clear rel3]
    obtain ys res' rest' where
      run: "convertMarked_mergeS d (h0 @ ys3) buf rng message
              (idx + int (length (getTokenContent t))) ?res2 = Some (h0 @ ys, res', rest')"
      and fr: "frame (h0 @ ys3) (h0 @ ys)"
      and rel: "result_rel (h0 @ ys) (length h0) res'
          (fst (convertMarked_merge tsb' rng message (idx + int (length (getTokenContent t))) ?Res2))"
      and rst: "list_all2 (\<lambda>v t. to_token d h0 v = Some t) rest'
          (snd (convertMarked_merge tsb' rng message (idx + int (length (getTokenContent t))) ?Res2))"
      by blast
    have stepS: "convertMarked_mergeS d ?hc (v # buf) rng message idx res =
        convertMarked_mergeS d (h0 @ ys3) buf rng message
          (idx + int (length (getTokenContent t))) ?res2"
      using True sp pop arr push rd by (simp add: h3eq)
    have stepV: "convertMarked_merge tsb rng message idx Res =
        convertMarked_merge tsb' rng message (idx + int (length (getTokenContent t))) ?Res2"
      using True by (simp add: tsb Let_def token_after_split_plain [OF flat])
    have "frame ?hc (h0 @ ys)" using fc3 fr unfolding h3eq by (rule frame_trans)
    with run rel rst show ?thesis unfolding stepS stepV by blast
  qed
qed


lemma to_token_empty_string:
  "to_token d h v = Some t \<Longrightarrow> v = VStr [] \<longleftrightarrow> t = Str []"
  by (cases v; cases d) (auto split: if_splits obj_content.splits)

lemma to_token_later:
  "to_token d h v = Some t \<Longrightarrow> to_token (Suc d) (h @ ys) v = Some t"
  by (intro to_token_Suc to_token_append)

lemma wrapper_to_token:
  assumes "result_rel h n r R"
  shows "to_token (Suc d) h (VObj (s_marked r)) = Some (marked R)"
proof -
  from assms obtain vals toks al where m: "s_marked r < length h"
    and obj: "h ! s_marked r = \<lparr>o_type = ''eslint-marked'', o_content = OArr vals, o_alias = al,
                                 o_length = 0\<rparr>"
    and tok: "marked R = Token ''eslint-marked'' (CArr toks) al 0"
    and vals: "list_all2 (piece h) vals toks"
    unfolding result_rel_def by blast
  from vals have "list_all2 (\<lambda>v t. to_token d h v = Some t) vals toks"
    by (rule list_all2_mono) (rule piece_to_token)
  then have "those (map (to_token d h) vals) = Some toks"
    by (simp add: those_map_Some)
  with m obj tok show ?thesis by simp
qed

lemma convertMarkedS_clear:
  assumes "list_all2 (\<lambda>v t. to_token d h v = Some t) buffer ts"
    and "range_clear ts rng start"
  shows "\<exists>ys out.
     convertMarkedS d h buffer rng message start = Some (h @ ys, out) \<and>
     list_all2 (\<lambda>v t. to_token (Suc d) (h @ ys) v = Some t) out
       (convertMarked ts rng message start)"
  using assms
proof (induction buffer arbitrary: ts start)
  case Nil
  then show ?case by auto
next
  case (Cons v buffer)
  from Cons.prems(1) obtain t ts' where ts: "ts = t # ts'"
    and vt: "to_token d h v = Some t"
    and rest: "list_all2 (\<lambda>v t. to_token d h v = Some t) buffer ts'"
    by (auto simp: list_all2_Cons1)
  note empty = to_token_empty_string [OF vt]
  show ?case
  proof (cases "t = Str []")
    case True
    with empty ts show ?thesis by (intro exI [of _ "[]"]) simp
  next
    case False
    with empty have v: "v \<noteq> VStr []" by simp
    have c: "getTokenContentS d h v = Some (getTokenContent t)"
      using vt by (rule getTokenContentS_to_token)
    let ?e = "start + int (length (getTokenContent t))"
    show ?thesis
    proof (cases "getTokenContent t = [] \<or> js_le (Num ?e) (fst rng)")
      case True
      with Cons.prems(2) ts False have "range_clear ts' rng ?e" by (simp add: Let_def)
      from Cons.IH [OF rest this] obtain ys out where
        run: "convertMarkedS d h buffer rng message ?e = Some (h @ ys, out)"
        and out: "list_all2 (\<lambda>v t. to_token (Suc d) (h @ ys) v = Some t) out
                    (convertMarked ts' rng message ?e)"
        by blast
      have stepS: "convertMarkedS d h (v # buffer) rng message start = Some (h @ ys, v # out)"
        using v c True run by (simp add: Let_def)
      have stepV: "convertMarked ts rng message start = t # convertMarked ts' rng message ?e"
        using False True by (simp add: ts Let_def)
      have "to_token (Suc d) (h @ ys) v = Some t" using vt by (rule to_token_later)
      with out show ?thesis unfolding stepS stepV by auto
    next
      case no: False
      with Cons.prems(2) ts False have flat: "\<not> nested t"
        and clear: "merge_clear ts' rng ?e"
        by (simp_all add: Let_def)
      let ?Result = "splitToken t rng message start"
      have pc: "piece h v t" using vt flat by (rule flat_piece)
      from splitTokenS_piece [OF pc, of d rng message start]
      obtain xs result where sp: "splitTokenS d h v rng message start = Some (h @ xs, result)"
        and rrel: "result_rel (h @ xs) (length h) result ?Result"
        by blast
      let ?M = "convertMarked_merge ts' rng message ?e ?Result"
      from convertMarked_mergeS_clear [OF rest clear rrel, of message]
      obtain ys merged remaining where
        mg: "convertMarked_mergeS d (h @ xs) buffer rng message ?e result =
               Some (h @ ys, merged, remaining)"
        and fr: "frame (h @ xs) (h @ ys)"
        and mrel: "result_rel (h @ ys) (length h) merged (fst ?M)"
        and rem: "list_all2 (\<lambda>v t. to_token d h v = Some t) remaining (snd ?M)"
        by blast
      have stepS: "convertMarkedS d h (v # buffer) rng message start =
          Some (h @ ys, yield_ifS (s_before result) @ [VObj (s_marked merged)] @
                        yield_ifS (s_after merged) @ remaining)"
        using v c no sp mg by (simp add: Let_def)
      have stepV: "convertMarked ts rng message start =
          yield_if (before ?Result) @ [marked (fst ?M)] @ yield_if (after (fst ?M)) @ snd ?M"
        using False no by (simp add: ts Let_def split_beta)
      let ?P = "\<lambda>v t. to_token (Suc d) (h @ ys) v = Some t"
      have up: "list_all2 (piece (h @ ys)) a b \<Longrightarrow> list_all2 ?P a b" for a b
        by (erule list_all2_mono) (rule piece_to_token)
      have "opt_piece (h @ xs) (s_before result) (before ?Result)"
        using rrel unfolding result_rel_def by blast
      then have "opt_piece (h @ ys) (s_before result) (before ?Result)"
        using fr by (rule opt_piece_frame)
      then have p1: "list_all2 ?P (yield_ifS (s_before result)) (yield_if (before ?Result))"
        by (intro up opt_piece_yield)
      have p2: "list_all2 ?P [VObj (s_marked merged)] [marked (fst ?M)]"
        using wrapper_to_token [OF mrel, of d] by simp
      have "opt_piece (h @ ys) (s_after merged) (after (fst ?M))"
        using mrel unfolding result_rel_def by blast
      then have p3: "list_all2 ?P (yield_ifS (s_after merged)) (yield_if (after (fst ?M)))"
        by (intro up opt_piece_yield)
      have p4: "list_all2 ?P remaining (snd ?M)"
        using rem by (rule list_all2_mono) (rule to_token_later)
      show ?thesis unfolding stepS stepV
        using p1 p2 p3 p4 by (blast intro: list_all2_appendI)
    qed
  qed
qed


text \<open>
  Claim C9, amended. Let the store \<open>h\<close> hold the input and let the stream
  \<open>buffer\<close> read as the tokens \<open>ts\<close>. If no token that the range meets has nested
  content, the call of \<open>convertMarked\<close> returns; the store it leaves is the store it
  was given followed by new objects, so every object of the input, nested or not, is
  exactly as it was; and the stream it returns reads as the tokens that the function
  \<open>convertMarked\<close> on values computes from \<open>ts\<close>, the range and the message.
\<close>

theorem clear_range_writes_nothing:
  assumes "those (map (to_token depth h) buffer) = Some ts"
    and "range_clear ts rng start"
  shows "\<exists>ys out.
     convertMarkedS depth h buffer rng message start = Some (h @ ys, out) \<and>
     those (map (to_token (Suc depth) (h @ ys)) out) = Some (convertMarked ts rng message start)"
proof -
  from assms(1) have "list_all2 (\<lambda>v t. to_token depth h v = Some t) buffer ts"
    by (simp add: those_map_Some)
  from convertMarkedS_clear [OF this assms(2), of message] show ?thesis
    by (simp add: those_map_Some)
qed

theorem clear_range_writes_nothing_witness:
  "those (map (to_token 1 example_store) [VObj 1, VObj 0, VStr ''xy'']) =
     Some [Token ''template-string'' (CArr [Str ''ab'', Str ''cd'']) AliasUndefined 4,
           Token ''keyword'' (CStr ''const'') AliasUndefined 5, Str ''xy''] \<and>
   range_clear
     [Token ''template-string'' (CArr [Str ''ab'', Str ''cd'']) AliasUndefined 4,
      Token ''keyword'' (CStr ''const'') AliasUndefined 5, Str ''xy'']
     (Num 5, Num 10) 0 \<and>
   (\<exists>ys out.
      convertMarkedS 1 example_store [VObj 1, VObj 0, VStr ''xy''] (Num 5, Num 10) ''M'' 0 =
        Some (example_store @ ys, out) \<and>
      those (map (to_token (Suc 1) (example_store @ ys)) out) =
        Some [Token ''template-string'' (CArr [Str ''ab'', Str ''cd'']) AliasUndefined 4,
              Token ''keyword'' (CStr ''c'') AliasUndefined 0,
              Token ''eslint-marked''
                (CArr [Token ''keyword'' (CStr ''onst'') AliasUndefined 0, Str ''x'',
                       Token ''eslint-message'' (CStr ''M'') (AliasArr [''alert'']) 0])
                (AliasArr []) 0,
              Str ''y''])"
proof -
  have r: "those (map (to_token 1 example_store) [VObj 1, VObj 0, VStr ''xy'']) =
     Some [Token ''template-string'' (CArr [Str ''ab'', Str ''cd'']) AliasUndefined 4,
           Token ''keyword'' (CStr ''const'') AliasUndefined 5, Str ''xy'']"
    by (simp add: example_store_def)
  have c: "range_clear
     [Token ''template-string'' (CArr [Str ''ab'', Str ''cd'']) AliasUndefined 4,
      Token ''keyword'' (CStr ''const'') AliasUndefined 5, Str ''xy'']
     (Num 5, Num 10) 0"
    by simp
  have v: "convertMarked
     [Token ''template-string'' (CArr [Str ''ab'', Str ''cd'']) AliasUndefined 4,
      Token ''keyword'' (CStr ''const'') AliasUndefined 5, Str ''xy'']
     (Num 5, Num 10) ''M'' 0 =
     [Token ''template-string'' (CArr [Str ''ab'', Str ''cd'']) AliasUndefined 4,
      Token ''keyword'' (CStr ''c'') AliasUndefined 0,
      Token ''eslint-marked''
        (CArr [Token ''keyword'' (CStr ''onst'') AliasUndefined 0, Str ''x'',
               Token ''eslint-message'' (CStr ''M'') (AliasArr [''alert'']) 0])
        (AliasArr []) 0,
      Str ''y'']"
    by (simp add: splitText_def slice_def slice_from_def Prism_Token_def)
  from r c clear_range_writes_nothing [OF r c, of "''M''"] show ?thesis
    unfolding v by (intro conjI) assumption+
qed

section \<open>Facts about the splitter\<close>

text \<open>
  The \<open>marked\<close> token of a split result always holds an array, and so does the
  token that the inner loop keeps in \<open>result.marked\<close>: \<open>pop\<close> and \<open>push\<close>
  never meet a content that is not an array.
\<close>

lemma splitToken_marked_array:
  "\<exists>ty ts al n. marked (splitToken token rng message tokenStart) = Token ty (CArr ts) al n"
proof (cases token)
  case (Str s)
  then show ?thesis by (simp add: splitText_def Let_def Prism_Token_def)
next
  case (Token ty c al n)
  then show ?thesis by (cases c) (simp_all add: splitText_def Let_def Prism_Token_def)
qed

lemma content_push_pop_array:
  "\<exists>ts'. content_push (content_pop (Token ty (CArr ts) al n)) xs = Token ty (CArr ts') al n"
  by simp

lemma convertMarked_merge_marked_array:
  assumes "\<exists>ty ts al n. marked result = Token ty (CArr ts) al n"
  shows "\<exists>ty ts al n.
     marked (fst (convertMarked_merge buffer rng message idx result)) = Token ty (CArr ts) al n"
  using assms
proof (induction buffer arbitrary: idx result)
  case Nil
  then show ?case by simp
next
  case (Cons nextToken buffer)
  show ?case
  proof (cases "js_lt (Num idx) (snd rng)")
    case True
    from Cons.prems obtain ty ts al n where m: "marked result = Token ty (CArr ts) al n"
      by blast
    have "\<exists>ty ts al n. marked (result\<lparr>
        marked := content_push (content_pop (marked result))
                    (content_array (marked (splitToken nextToken rng message idx))),
        after := (if truthy (after (splitToken nextToken rng message idx))
                  then after (splitToken nextToken rng message idx) else after result)\<rparr>) =
        Token ty (CArr ts) al n"
      by (simp add: m)
    from Cons.IH [OF this] True show ?thesis by (simp add: Let_def)
  next
    case False
    with Cons.prems show ?thesis by simp
  qed
qed

text \<open>
  A range that starts at or past the end of the text is a no-op, provided the walk is
  not cut short: no token of the stream is the empty string.
\<close>

lemma convertMarked_past_end:
  assumes "Str [] \<notin> set ts" and "start + int (length (treeText ts)) \<le> s"
  shows "convertMarked ts (Num s, e) message start = ts"
  using assms
proof (induction ts arbitrary: start)
  case Nil
  then show ?case by simp
next
  case (Cons t ts)
  have tt: "treeText (t # ts) = getTokenContent t @ treeText ts" by (simp add: treeText_def)
  from Cons.prems have "convertMarked ts (Num s, e) message (start + int (length (getTokenContent t))) = ts"
    by (intro Cons.IH) (auto simp: tt)
  moreover from Cons.prems have "start + int (length (getTokenContent t)) \<le> s"
    by (simp add: tt)
  moreover from Cons.prems have "t \<noteq> Str []" by auto
  ultimately show ?case by (simp add: Let_def)
qed

section \<open>One range on a stream of plain tokens\<close>

text \<open>
  On a stream of plain tokens a single range \<open>[s, e)\<close> inside the text is applied
  exactly: the result is the tokens before the range, one wrapper and the tokens after
  it, and they read the text before \<open>s\<close>, from \<open>s\<close> to \<open>e\<close> and from
  \<open>e\<close> on (lemma \<open>convertMarked_plain\<close>). The pieces it rebuilds have
  \<open>length\<close> 0 and the wrapper nests, so the result is no longer such a stream.
\<close>

lemma slice_nonneg:
  assumes "0 \<le> a" and "0 \<le> b"
  shows "slice c (Num a) (Num b) = take (nat b - nat a) (drop (nat a) c)"
proof -
  have "take (min (nat b) (length c) - min (nat a) (length c)) (drop (min (nat a) (length c)) c) =
      take (nat b - nat a) (drop (nat a) c)"
  proof (cases "nat a < length c")
    case False
    then show ?thesis by simp
  next
    case a: True
    show ?thesis
    proof (cases "nat b \<le> length c")
      case True
      with a show ?thesis by (simp add: min_absorb1)
    next
      case False
      with a have "min (nat b) (length c) = length c" "min (nat a) (length c) = nat a"
        and "length (drop (nat a) c) \<le> nat b - nat a" by simp_all
      then show ?thesis by simp
    qed
  qed
  with assms show ?thesis by (simp add: slice_def Let_def)
qed

lemma slice_from_nonneg: "0 \<le> a \<Longrightarrow> slice_from c (Num a) = drop (nat a) c"
  by (cases "nat a \<le> length c") (simp_all add: slice_from_def min_def)

lemma splitText_plain:
  assumes content: "\<And>x. getTokenContent (build x) = x"
    and truthy: "\<And>x. x \<noteq> [] \<Longrightarrow> truthy (Some (build x))"
    and len: "js_length token = length (getTokenContent token)"
    and se: "s < e" and starte: "start < e"
    and inside: "start < s \<Longrightarrow> s < start + int (length (getTokenContent token))"
  shows "splitText build token (Num s, Num e) message start =
     \<lparr>before = (if start < s then Some (build (take (nat (s - start)) (getTokenContent token)))
                 else None),
      marked = wrapper [build (take (nat (e - start) - nat (s - start))
                                (drop (nat (s - start)) (getTokenContent token)))]
                 message
                 (if take (nat (e - start) - nat (s - start))
                       (drop (nat (s - start)) (getTokenContent token)) = [CHR 0x0A] \<and> s + 1 = e
                  then AliasArr [''eslint-marked-line-feed''] else AliasArr []),
      after = (if e - start < int (length (getTokenContent token))
               then Some (build (drop (nat (e - start)) (getTokenContent token))) else None)\<rparr>"
proof (cases "start < s")
  case True
  let ?c = "getTokenContent token"
  from True inside have "take (nat (s - start)) ?c \<noteq> []" by auto
  then have t: "truthy (Some (build (take (nat (s - start)) ?c)))" by (rule truthy)
  have b: "slice ?c (Num 0) (Num (s - start)) = take (nat (s - start)) ?c"
    using True by (simp add: slice_nonneg)
  have m: "slice ?c (Num (s - start)) (Num (e - start)) =
      take (nat (e - start) - nat (s - start)) (drop (nat (s - start)) ?c)"
    using True starte by (simp add: slice_nonneg)
  have a: "slice_from ?c (Num (e - start)) = drop (nat (e - start)) ?c"
    using starte by (simp add: slice_from_nonneg)
  show ?thesis
    using True t by (simp add: splitText_def Let_def b m a len wrapper_def Prism_Token_def)
next
  case False
  let ?c = "getTokenContent token"
  from False have z: "nat (s - start) = 0" by simp
  have m: "slice ?c (Num 0) (Num (e - start)) = take (nat (e - start)) ?c"
    using starte by (simp add: slice_nonneg)
  have a: "slice_from ?c (Num (e - start)) = drop (nat (e - start)) ?c"
    using starte by (simp add: slice_from_nonneg)
  show ?thesis
    using False by (simp add: splitText_def Let_def z m a len wrapper_def Prism_Token_def)
qed


lemma splitText_plain_texts:
  assumes content: "\<And>x. getTokenContent (build x) = x"
    and truthy: "\<And>x. x \<noteq> [] \<Longrightarrow> truthy (Some (build x))"
    and len: "js_length token = length (getTokenContent token)"
    and se: "s < e" and starte: "start < e"
    and inside: "start < s \<Longrightarrow> s < start + int (length (getTokenContent token))"
  shows "treeText (yield_if (before (splitText build token (Num s, Num e) message start))) =
           take (nat (s - start)) (getTokenContent token)"
    and "\<exists>piece al. marked (splitText build token (Num s, Num e) message start) =
             wrapper [piece] message al \<and>
           getTokenContent piece =
             take (nat (e - start) - nat (s - start)) (drop (nat (s - start)) (getTokenContent token))"
    and "treeText (yield_if (after (splitText build token (Num s, Num e) message start))) =
           drop (nat (e - start)) (getTokenContent token)"
    and "truthy (after (splitText build token (Num s, Num e) message start)) \<longleftrightarrow>
           e - start < int (length (getTokenContent token))"
proof -
  note eq = splitText_plain [of build token s e start message, OF content truthy len se starte inside]
  let ?c = "getTokenContent token"
  show "treeText (yield_if (before (splitText build token (Num s, Num e) message start))) =
           take (nat (s - start)) ?c"
  proof (cases "start < s")
    case True
    with inside have "take (nat (s - start)) ?c \<noteq> []" by auto
    then have "truthy (Some (build (take (nat (s - start)) ?c)))" by (rule truthy)
    with True show ?thesis by (simp add: eq treeText_def content)
  next
    case False
    then show ?thesis by (simp add: eq treeText_def)
  qed
  show "\<exists>piece al. marked (splitText build token (Num s, Num e) message start) =
             wrapper [piece] message al \<and>
           getTokenContent piece =
             take (nat (e - start) - nat (s - start)) (drop (nat (s - start)) ?c)"
    by (auto simp: eq content)
  have t: "truthy (Some (build (drop (nat (e - start)) ?c)))"
    if "e - start < int (length ?c)"
  proof -
    from that starte have "drop (nat (e - start)) ?c \<noteq> []" by auto
    then show ?thesis by (rule truthy)
  qed
  show "treeText (yield_if (after (splitText build token (Num s, Num e) message start))) =
           drop (nat (e - start)) ?c"
  proof (cases "e - start < int (length ?c)")
    case True
    with t show ?thesis by (simp add: eq treeText_def content)
  next
    case False
    then show ?thesis by (simp add: eq treeText_def)
  qed
  show "truthy (after (splitText build token (Num s, Num e) message start)) \<longleftrightarrow>
           e - start < int (length ?c)"
    using t by (auto simp: eq)
qed

lemma splitToken_plain:
  assumes "plain t" and "s < e" and "start < e"
    and "start < s \<Longrightarrow> s < start + int (length (getTokenContent t))"
  shows "treeText (yield_if (before (splitToken t (Num s, Num e) message start))) =
           take (nat (s - start)) (getTokenContent t)"
    and "\<exists>piece al. marked (splitToken t (Num s, Num e) message start) =
             wrapper [piece] message al \<and>
           getTokenContent piece =
             take (nat (e - start) - nat (s - start)) (drop (nat (s - start)) (getTokenContent t))"
    and "treeText (yield_if (after (splitToken t (Num s, Num e) message start))) =
           drop (nat (e - start)) (getTokenContent t)"
    and "truthy (after (splitToken t (Num s, Num e) message start)) \<longleftrightarrow>
           e - start < int (length (getTokenContent t))"
    and "token_after_split t (splitToken t (Num s, Num e) message start) = t"
proof -
  show "token_after_split t (splitToken t (Num s, Num e) message start) = t"
    using assms(1) by (cases t rule: plain.cases) simp_all
  consider x where "t = Str x" | ty x al where "t = Token ty (CStr x) al (length x)"
      "ty \<noteq> ''eslint-message''"
    using assms(1) by (cases t rule: plain.cases) auto
  then have "\<exists>build. (\<forall>x. getTokenContent (build x) = x) \<and>
      (\<forall>x. x \<noteq> [] \<longrightarrow> truthy (Some (build x))) \<and>
      js_length t = length (getTokenContent t) \<and>
      splitToken t (Num s, Num e) message start = splitText build t (Num s, Num e) message start"
  proof cases
    case 1
    then show ?thesis by (intro exI [of _ Str]) simp
  next
    case 2
    then show ?thesis
      by (intro exI [of _ "\<lambda>newContent. Prism_Token ty (CStr newContent) al"])
        (simp add: Prism_Token_def)
  qed
  then obtain build where b: "\<And>x. getTokenContent (build x) = x"
    "\<And>x. x \<noteq> [] \<Longrightarrow> truthy (Some (build x))"
    "js_length t = length (getTokenContent t)"
    and eq: "splitToken t (Num s, Num e) message start =
        splitText build t (Num s, Num e) message start"
    by blast
  note texts = splitText_plain_texts [of build t s e start message, OF b assms(2,3,4)]
  show "treeText (yield_if (before (splitToken t (Num s, Num e) message start))) =
           take (nat (s - start)) (getTokenContent t)"
    unfolding eq by (rule texts(1))
  show "\<exists>piece al. marked (splitToken t (Num s, Num e) message start) =
             wrapper [piece] message al \<and>
           getTokenContent piece =
             take (nat (e - start) - nat (s - start)) (drop (nat (s - start)) (getTokenContent t))"
    unfolding eq by (rule texts(2))
  show "treeText (yield_if (after (splitToken t (Num s, Num e) message start))) =
           drop (nat (e - start)) (getTokenContent t)"
    unfolding eq by (rule texts(3))
  show "truthy (after (splitToken t (Num s, Num e) message start)) \<longleftrightarrow>
           e - start < int (length (getTokenContent t))"
    unfolding eq by (rule texts(4))
qed


lemma treeText_simps:
  "treeText [] = []"
  "treeText (t # ts) = getTokenContent t @ treeText ts"
  "treeText (xs @ ys) = treeText xs @ treeText ys"
  by (simp_all add: treeText_def)

lemma yield_if_falsy: "\<not> truthy x \<Longrightarrow> yield_if x = []"
  by (cases x) auto

lemma wrapper_push:
  "content_push (content_pop (wrapper inner message al)) (content_array (wrapper xs message al')) =
     wrapper (inner @ xs) message al"
  by (simp add: wrapper_def)

lemma convertMarked_merge_plain:
  assumes "list_all plain buffer" and "s \<le> idx" and "s < e"
    and "marked result = wrapper inner message al"
    and "\<not> truthy (after result)"
  shows "\<exists>inner' merged rest.
     convertMarked_merge buffer (Num s, Num e) message idx result = (merged, rest) \<and>
     marked merged = wrapper (inner @ inner') message al \<and>
     treeText inner' = take (nat (e - idx)) (treeText buffer) \<and>
     treeText (yield_if (after merged) @ rest) = drop (nat (e - idx)) (treeText buffer)"
  using assms
proof (induction buffer arbitrary: idx result inner)
  case Nil
  then show ?case by (intro exI [of _ "[]"]) (simp add: treeText_simps yield_if_falsy)
next
  case (Cons t buffer)
  let ?c = "getTokenContent t"
  let ?tb = "treeText buffer"
  show ?case
  proof (cases "idx < e")
    case False
    then have "convertMarked_merge (t # buffer) (Num s, Num e) message idx result =
        (result, t # buffer)"
      by (intro convertMarked_merge_stop) simp
    moreover from False have "nat (e - idx) = 0" by simp
    ultimately show ?thesis
      using Cons.prems(4,5) by (intro exI [of _ "[]"]) (simp add: treeText_simps yield_if_falsy)
  next
    case True
    let ?next = "splitToken t (Num s, Num e) message idx"
    from Cons.prems(1) have pt: "plain t" and pb: "list_all plain buffer" by simp_all
    have vac: "idx < s \<Longrightarrow> s < idx + int (length ?c)" using Cons.prems(2) by simp
    note sp = splitToken_plain [OF pt Cons.prems(3) True vac, of message]
    from Cons.prems(2) have k0: "nat (s - idx) = 0" by simp
    from sp(2) k0 obtain piece al' where
      mk: "marked ?next = wrapper [piece] message al'"
      and piece: "getTokenContent piece = take (nat (e - idx)) ?c"
      by auto
    let ?result' = "result\<lparr>
        marked := content_push (content_pop (marked result)) (content_array (marked ?next)),
        after := (if truthy (after ?next) then after ?next else after result)\<rparr>"
    have step: "convertMarked_merge (t # buffer) (Num s, Num e) message idx result =
        convertMarked_merge buffer (Num s, Num e) message (idx + int (length ?c)) ?result'"
      using True by (simp add: Let_def sp(5))
    have mk': "marked ?result' = wrapper (inner @ [piece]) message al"
      by (simp add: Cons.prems(4) mk wrapper_push)
    show ?thesis
    proof (cases "e - idx < int (length ?c)")
      case short: True
      then have "\<not> js_lt (Num (idx + int (length ?c))) (snd (Num s, Num e))" by simp
      then have stop: "convertMarked_merge buffer (Num s, Num e) message (idx + int (length ?c))
          ?result' = (?result', buffer)"
        by (rule convertMarked_merge_stop)
      from short sp(4) have aft: "after ?result' = after ?next" by simp
      have n: "nat (e - idx) < length ?c" using short True by linarith
      have "treeText [piece] = take (nat (e - idx)) (treeText (t # buffer))"
        using n by (simp add: treeText_simps piece)
      moreover have "treeText (yield_if (after ?result') @ buffer) =
          drop (nat (e - idx)) (treeText (t # buffer))"
        using n by (simp add: treeText_simps aft sp(3))
      ultimately show ?thesis
        unfolding step stop using mk' by (intro exI [of _ "[piece]"]) simp
    next
      case long: False
      with sp(4) have aft: "after ?result' = after result" by simp
      then have falsy: "\<not> truthy (after ?result')" using Cons.prems(5) by simp
      have le: "s \<le> idx + int (length ?c)" using Cons.prems(2) by simp
      from Cons.IH [OF pb le Cons.prems(3) mk' falsy]
      obtain inner'' merged rest where
        run: "convertMarked_merge buffer (Num s, Num e) message (idx + int (length ?c)) ?result' =
            (merged, rest)"
        and m: "marked merged = wrapper ((inner @ [piece]) @ inner'') message al"
        and t1: "treeText inner'' = take (nat (e - (idx + int (length ?c)))) ?tb"
        and t2: "treeText (yield_if (after merged) @ rest) =
            drop (nat (e - (idx + int (length ?c)))) ?tb"
        by blast
      have n: "length ?c \<le> nat (e - idx)" using long True by linarith
      have d: "nat (e - (idx + int (length ?c))) = nat (e - idx) - length ?c"
        using long True by linarith
      have "treeText ([piece] @ inner'') = take (nat (e - idx)) (treeText (t # buffer))"
        using n by (simp add: treeText_simps piece t1 d)
      moreover have "treeText (yield_if (after merged) @ rest) =
          drop (nat (e - idx)) (treeText (t # buffer))"
        using n t2 by (simp add: treeText_simps d)
      ultimately show ?thesis
        unfolding step run using m by (intro exI [of _ "[piece] @ inner''"]) simp
    qed
  qed
qed


lemma convertMarked_plain:
  assumes "list_all plain ts" and "start \<le> s" and "s < e"
    and "e \<le> start + int (length (treeText ts))"
  shows "\<exists>pre inner post al.
     convertMarked ts (Num s, Num e) message start = pre @ [wrapper inner message al] @ post \<and>
     treeText pre = take (nat (s - start)) (treeText ts) \<and>
     treeText inner = take (nat (e - s)) (drop (nat (s - start)) (treeText ts)) \<and>
     treeText post = drop (nat (e - start)) (treeText ts)"
  using assms
proof (induction ts arbitrary: start)
  case Nil
  then show ?case by (simp add: treeText_simps)
next
  case (Cons t ts)
  let ?c = "getTokenContent t"
  let ?tb = "treeText ts"
  let ?e = "start + int (length ?c)"
  let ?k = "nat (s - start)"
  from Cons.prems(1) have pt: "plain t" and pts: "list_all plain ts" by simp_all
  from pt have ne: "t \<noteq> Str []" by auto
  show ?case
  proof (cases "?c = [] \<or> ?e \<le> s")
    case True
    then have le: "?e \<le> s" using Cons.prems(2) by auto
    have hi: "e \<le> ?e + int (length ?tb)" using Cons.prems(4) by (simp add: treeText_simps)
    from Cons.IH [OF pts le Cons.prems(3) hi]
    obtain pre inner post al where
      run: "convertMarked ts (Num s, Num e) message ?e = pre @ [wrapper inner message al] @ post"
      and t1: "treeText pre = take (nat (s - ?e)) ?tb"
      and t2: "treeText inner = take (nat (e - s)) (drop (nat (s - ?e)) ?tb)"
      and t3: "treeText post = drop (nat (e - ?e)) ?tb"
      by blast
    have n: "length ?c \<le> ?k" using le Cons.prems(2) by linarith
    have d1: "nat (s - ?e) = ?k - length ?c" using le Cons.prems(2) by linarith
    have d2: "nat (e - ?e) = nat (e - start) - length ?c"
      using le Cons.prems(2,3) by linarith
    have n2: "length ?c \<le> nat (e - start)" using le Cons.prems(2,3) by linarith
    have out: "convertMarked (t # ts) (Num s, Num e) message start =
        (t # pre) @ [wrapper inner message al] @ post"
      using True ne run by (simp add: Let_def)
    have "treeText (t # pre) = take ?k (treeText (t # ts))"
      using n by (simp add: treeText_simps t1 d1)
    moreover have "treeText inner = take (nat (e - s)) (drop ?k (treeText (t # ts)))"
      using n by (simp add: treeText_simps t2 d1)
    moreover have "treeText post = drop (nat (e - start)) (treeText (t # ts))"
      using n2 by (simp add: treeText_simps t3 d2)
    ultimately show ?thesis using out by blast
  next
    case False
    then have inside: "s < ?e" and nonempty: "?c \<noteq> []" by auto
    let ?r = "splitToken t (Num s, Num e) message start"
    have starte: "start < e" using Cons.prems(2,3) by simp
    note sp = splitToken_plain [OF pt Cons.prems(3) starte inside, of message]
    from sp(2) obtain piece al where
      mk: "marked ?r = wrapper [piece] message al"
      and piece: "getTokenContent piece = take (nat (e - start) - ?k) (drop ?k ?c)"
      by auto
    have k: "?k < length ?c" using inside Cons.prems(2) by linarith
    have es: "nat (e - start) - ?k = nat (e - s)" using Cons.prems(2,3) by linarith
    have pre: "treeText (yield_if (before ?r)) = take ?k (treeText (t # ts))"
      using k by (simp add: treeText_simps sp(1))
    show ?thesis
    proof (cases "e \<le> ?e")
      case True
      then have "\<not> js_lt (Num ?e) (snd (Num s, Num e))" by simp
      then have stop: "convertMarked_merge ts (Num s, Num e) message ?e ?r = (?r, ts)"
        by (rule convertMarked_merge_stop)
      have out: "convertMarked (t # ts) (Num s, Num e) message start =
          yield_if (before ?r) @ [wrapper [piece] message al] @ (yield_if (after ?r) @ ts)"
        using False ne by (simp add: Let_def stop mk)
      have n: "nat (e - start) \<le> length ?c" using True starte by linarith
      have n': "nat (e - s) \<le> length ?c - ?k" using True Cons.prems(2,3) by linarith
      have "treeText [piece] = take (nat (e - s)) (drop ?k (treeText (t # ts)))"
        using k n' by (simp add: treeText_simps piece es)
      moreover have "treeText (yield_if (after ?r) @ ts) =
          drop (nat (e - start)) (treeText (t # ts))"
        using n by (simp add: treeText_simps sp(3))
      ultimately show ?thesis using out pre by blast
    next
      case beyond: False
      with sp(4) have falsy: "\<not> truthy (after ?r)" by simp
      have le: "s \<le> ?e" using inside by simp
      from convertMarked_merge_plain [OF pts le Cons.prems(3) mk falsy]
      obtain inner' merged rest where
        run: "convertMarked_merge ts (Num s, Num e) message ?e ?r = (merged, rest)"
        and m: "marked merged = wrapper ([piece] @ inner') message al"
        and t1: "treeText inner' = take (nat (e - ?e)) ?tb"
        and t2: "treeText (yield_if (after merged) @ rest) = drop (nat (e - ?e)) ?tb"
        by blast
      have out: "convertMarked (t # ts) (Num s, Num e) message start =
          yield_if (before ?r) @ [wrapper ([piece] @ inner') message al] @
          (yield_if (after merged) @ rest)"
        using False ne by (simp add: Let_def run m)
      have n: "length ?c \<le> nat (e - start)" using beyond starte by linarith
      have d: "nat (e - ?e) = nat (e - start) - length ?c" using beyond starte by linarith
      have d': "nat (e - ?e) = nat (e - s) - (length ?c - ?k)"
        using beyond Cons.prems(2,3) inside by linarith
      have n': "length ?c - ?k \<le> nat (e - s)" using beyond Cons.prems(2,3) inside by linarith
      have "treeText ([piece] @ inner') = take (nat (e - s)) (drop ?k (treeText (t # ts)))"
        using k n' by (simp add: treeText_simps piece es t1 d')
      moreover have "treeText (yield_if (after merged) @ rest) =
          drop (nat (e - start)) (treeText (t # ts))"
        using n t2 by (simp add: treeText_simps d)
      ultimately show ?thesis using out pre by blast
    qed
  qed
qed

end
